theory Spec2Isabelle
  imports Complex_Main
begin

section \<open>The associative memory of \<^verbatim>\<open>memory.py\<close> (class SullySearchMemory)\<close>

text \<open>
  The class keeps three Python objects: the list \<^verbatim>\<open>storage\<close> of entries, the dictionary
  \<^verbatim>\<open>associations\<close> from lower-cased concepts to lists of entry indices, and the
  dictionary \<^verbatim>\<open>temporal_index\<close> from day keys to lists of entry indices. Every public
  method is modelled as a function of the object's state (and of the disk, for the
  optional persistence file); a method that can raise returns a sum, \<open>Inl\<close> carrying
  the exception.
\<close>

subsection \<open>Values\<close>

text \<open>The exceptions that can leave a public method.\<close>

datatype py_error = IndexError | OverflowError

text \<open>
  The payloads a caller hands over (\<^verbatim>\<open>result: Any\<close>, \<^verbatim>\<open>metadata: Dict[str, Any]\<close>,
  neither checked): \<^verbatim>\<open>None\<close>, booleans, integers, strings, lists, tuples, dictionaries
  with keys of any of these kinds, and \<open>PObject\<close> for every other object (a set, an
  instance of a class), told apart by a number.
\<close>

datatype pyval =
  PNone
| PBool bool
| PInt int
| PStr string
| PList "pyval list"
| PTuple "pyval list"
| PDict "(pyval \<times> pyval) list"
| PObject nat

text \<open>
  A \<^verbatim>\<open>datetime\<close>: the proleptic Gregorian ordinal of its day (\<^verbatim>\<open>date.toordinal()\<close>)
  and the microseconds since midnight. \<^verbatim>\<open>strftime("%Y-%m-%d")\<close> renders the day
  injectively, so the day itself stands for the key string.
\<close>

record datetime =
  ordinal :: int
  micros :: nat

text \<open>
  The two dictionaries \<^verbatim>\<open>store_query\<close> and \<^verbatim>\<open>store_experience\<close> build. The key
  \<^verbatim>\<open>"metadata"\<close> (\<^verbatim>\<open>"concepts"\<close>) is present only when the argument was truthy.
\<close>

datatype entry =
  QueryEntry string pyval datetime "(pyval \<times> pyval) list option"
| ExperienceEntry string string datetime real "string list option"

text \<open>\<^verbatim>\<open>entry["query"]\<close>, \<^verbatim>\<open>entry["result"]\<close>, \<^verbatim>\<open>entry["content"]\<close>; \<open>None\<close> when the key is not in the entry.\<close>

fun get_query :: "entry \<Rightarrow> string option" where
  "get_query (QueryEntry q r ts md) = Some q"
| "get_query (ExperienceEntry c s ts imp cs) = None"

fun get_result :: "entry \<Rightarrow> pyval option" where
  "get_result (QueryEntry q r ts md) = Some r"
| "get_result (ExperienceEntry c s ts imp cs) = None"

fun get_content :: "entry \<Rightarrow> string option" where
  "get_content (QueryEntry q r ts md) = None"
| "get_content (ExperienceEntry c s ts imp cs) = Some c"

subsection \<open>Strings\<close>

text \<open>
  \<^verbatim>\<open>str.lower()\<close>. The characters of the model are the code points below 256. Of these
  the letters A to Z and the letters at 192 to 222, but for the sign at 215, have a
  lower-case form, 32 places on; \<^verbatim>\<open>str.lower()\<close> leaves every other one as it is.
\<close>

definition lower_char :: "char \<Rightarrow> char" where
  "lower_char c =
     (case map_of (zip ''ABCDEFGHIJKLMNOPQRSTUVWXYZ'' ''abcdefghijklmnopqrstuvwxyz'') c of
        Some l \<Rightarrow> l
      | None \<Rightarrow>
          if 192 \<le> (of_char c :: nat) \<and> (of_char c :: nat) \<le> 222 \<and> (of_char c :: nat) \<noteq> 215
          then char_of (of_char c + 32 :: nat) else c)"

definition lower :: "string \<Rightarrow> string" where
  "lower s = map lower_char s"

fun startswith :: "string \<Rightarrow> string \<Rightarrow> bool" where
  "startswith [] hay = True"
| "startswith (c # cs) [] = False"
| "startswith (c # cs) (h # hs) = (c = h \<and> startswith cs hs)"

text \<open>\<^verbatim>\<open>needle in haystack\<close> for two strings.\<close>

fun contains :: "string \<Rightarrow> string \<Rightarrow> bool" where
  "contains needle [] = (needle = [])"
| "contains needle (h # hs) = (startswith needle (h # hs) \<or> contains needle hs)"

subsection \<open>Dictionaries\<close>

text \<open>
  A Python \<^verbatim>\<open>dict\<close> iterates in insertion order, and \<^verbatim>\<open>search\<close> iterates over
  \<^verbatim>\<open>associations.items()\<close>: a dictionary is a list of key-value pairs in insertion order.
\<close>

type_synonym ('k, 'v) dict = "('k \<times> 'v) list"

text \<open>\<^verbatim>\<open>d[k]\<close> when \<^verbatim>\<open>k in d\<close>, else \<open>None\<close>.\<close>

fun dict_get :: "('k, 'v) dict \<Rightarrow> 'k \<Rightarrow> 'v option" where
  "dict_get [] k = None"
| "dict_get ((k', v) # d) k = (if k' = k then Some v else dict_get d k)"

text \<open>\<^verbatim>\<open>d[k] = v\<close>: a key already there keeps its place, a new one goes last.\<close>

fun dict_set :: "'k \<Rightarrow> 'v \<Rightarrow> ('k, 'v) dict \<Rightarrow> ('k, 'v) dict" where
  "dict_set k v [] = [(k, v)]"
| "dict_set k v ((k', v') # d) = (if k' = k then (k, v) # d else (k', v') # dict_set k v d)"

subsection \<open>The state of the object and of the disk\<close>

record memory =
  storage :: "entry list"
  associations :: "(string, nat list) dict"
  temporal_index :: "(int, nat list) dict"
  memory_file :: "string option"

text \<open>
  What \<^verbatim>\<open>export_full_system\<close> returns and the persistence file holds. \<^verbatim>\<open>_load_from_file\<close>
  tests each of the three keys before it reads it, so a section may be missing.
\<close>

record snapshot =
  doc_storage :: "entry list option"
  doc_associations :: "(string, nat list) dict option"
  doc_temporal_index :: "(int, nat list) dict option"

text \<open>
  A file is \<open>Garbled\<close> when \<^verbatim>\<open>json.load\<close> raises on it or gives a value that is not an
  object (then a key test or the indexing raises before anything is assigned); it is a
  \<open>Document\<close> otherwise. Sections of another shape than \<^verbatim>\<open>export_full_system\<close> writes
  are outside the model.
\<close>

datatype disk_file = Garbled | Document snapshot

text \<open>The disk: the files by path, and the paths where opening for writing or removing fails.\<close>

record disk =
  files :: "string \<Rightarrow> disk_file option"
  unwritable :: "string \<Rightarrow> bool"

text \<open>
  What the Python runtime decides and the source leaves open: the list
  \<^verbatim>\<open>_extract_key_concepts\<close> returns for a text (two regular expressions, then
  \<^verbatim>\<open>list(set(...))[:10]\<close>, whose order follows the string hashes of the process), the
  order in which a set of strings is iterated, the order in which a set of integers is
  iterated, and how deep the lists and dictionaries of a payload may be nested before
  \<^verbatim>\<open>json.dump\<close> exceeds the recursion limit of the interpreter and raises
  RecursionError.
\<close>

record runtime =
  key_concepts :: "string \<Rightarrow> string list"
  str_set_iter :: "string list \<Rightarrow> string list"
  int_set_iter :: "nat set \<Rightarrow> nat list"
  json_depth :: nat

subsection \<open>Persistence\<close>

text \<open>\<^verbatim>\<open>self.memory_file\<close> when it is truthy: neither \<^verbatim>\<open>None\<close> nor the empty string.\<close>

definition file_path :: "memory \<Rightarrow> string option" where
  "file_path m = (case memory_file m of None \<Rightarrow> None | Some p \<Rightarrow> if p = [] then None else Some p)"

definition export_full_system :: "memory \<Rightarrow> snapshot" where
  "export_full_system m =
     \<lparr>doc_storage = Some (storage m),
      doc_associations = Some (associations m),
      doc_temporal_index = Some (temporal_index m)\<rparr>"

text \<open>
  What \<^verbatim>\<open>json.load\<close> reads back from what \<^verbatim>\<open>json.dump\<close> wrote, and \<open>None\<close> where
  \<^verbatim>\<open>json.dump\<close> raises. An integer is written in decimal digits; since Python 3.11 the
  conversion of an integer of more than 4300 digits raises ValueError.
\<close>

fun nat_decimal :: "nat \<Rightarrow> string" where
  "nat_decimal n =
     (if n < 10 then [''0123456789'' ! n]
      else nat_decimal (n div 10) @ [''0123456789'' ! (n mod 10)])"

declare nat_decimal.simps [simp del]

definition int_decimal :: "int \<Rightarrow> string" where
  "int_decimal i = (if i < 0 then ''-'' @ nat_decimal (nat (- i)) else nat_decimal (nat i))"

definition int_digits_ok :: "int \<Rightarrow> bool" where
  "int_digits_ok i = (length (nat_decimal (nat \<bar>i\<bar>)) \<le> 4300)"

text \<open>
  The key of a JSON object is a string: a string key stays, an integer, a boolean and
  \<^verbatim>\<open>None\<close> are written as text, any other key raises TypeError.
\<close>

fun json_key :: "pyval \<Rightarrow> string option" where
  "json_key (PStr s) = Some s"
| "json_key (PInt i) = (if int_digits_ok i then Some (int_decimal i) else None)"
| "json_key (PBool b) = Some (if b then ''true'' else ''false'')"
| "json_key PNone = Some ''null''"
| "json_key k = None"

text \<open>
  A tuple is written as an array and comes back as a list; a dictionary comes back with
  its keys as strings; any other object raises TypeError.
\<close>

fun json_value :: "pyval \<Rightarrow> pyval option"
  and json_values :: "pyval list \<Rightarrow> pyval list option"
  and json_items :: "(pyval \<times> pyval) list \<Rightarrow> (pyval \<times> pyval) list option" where
  "json_value PNone = Some PNone"
| "json_value (PBool b) = Some (PBool b)"
| "json_value (PInt i) = (if int_digits_ok i then Some (PInt i) else None)"
| "json_value (PStr s) = Some (PStr s)"
| "json_value (PList vs) = map_option PList (json_values vs)"
| "json_value (PTuple vs) = map_option PList (json_values vs)"
| "json_value (PDict kvs) =
     map_option (\<lambda>kvs'. PDict (foldl (\<lambda>d (k, v). dict_set k v d) [] kvs')) (json_items kvs)"
| "json_value (PObject n) = None"
| "json_values [] = Some []"
| "json_values (v # vs) =
     (case json_value v of
        None \<Rightarrow> None
      | Some v' \<Rightarrow> (case json_values vs of None \<Rightarrow> None | Some vs' \<Rightarrow> Some (v' # vs')))"
| "json_items [] = Some []"
| "json_items ((k, v) # kvs) =
     (case json_key k of
        None \<Rightarrow> None
      | Some k' \<Rightarrow>
          (case json_value v of
             None \<Rightarrow> None
           | Some v' \<Rightarrow>
               (case json_items kvs of
                  None \<Rightarrow> None
                | Some kvs' \<Rightarrow> Some ((PStr k', v') # kvs'))))"

text \<open>How deep the lists, tuples and dictionaries of a payload are nested.\<close>

fun nesting :: "pyval \<Rightarrow> nat"
  and nesting_list :: "pyval list \<Rightarrow> nat"
  and nesting_items :: "(pyval \<times> pyval) list \<Rightarrow> nat" where
  "nesting (PList vs) = Suc (nesting_list vs)"
| "nesting (PTuple vs) = Suc (nesting_list vs)"
| "nesting (PDict kvs) = Suc (nesting_items kvs)"
| "nesting v = 0"
| "nesting_list [] = 0"
| "nesting_list (v # vs) = max (nesting v) (nesting_list vs)"
| "nesting_items [] = 0"
| "nesting_items ((k, v) # kvs) = max (nesting v) (nesting_items kvs)"

text \<open>A payload of an entry: nested too deep, \<^verbatim>\<open>json.dump\<close> raises RecursionError.\<close>

definition json_payload :: "runtime \<Rightarrow> pyval \<Rightarrow> pyval option" where
  "json_payload rt v = (if nesting v \<le> json_depth rt then json_value v else None)"

text \<open>
  An entry: its texts, its timestamp (a string in ISO format) and its importance (a float)
  come back as they are; the result and the metadata go through \<open>json_payload\<close>.
\<close>

fun json_entry :: "runtime \<Rightarrow> entry \<Rightarrow> entry option" where
  "json_entry rt (QueryEntry q r ts md) =
     (case json_payload rt r of
        None \<Rightarrow> None
      | Some r' \<Rightarrow>
          (case md of
             None \<Rightarrow> Some (QueryEntry q r' ts None)
           | Some kvs \<Rightarrow>
               (case json_payload rt (PDict kvs) of
                  Some (PDict kvs') \<Rightarrow> Some (QueryEntry q r' ts (Some kvs'))
                | _ \<Rightarrow> None)))"
| "json_entry rt (ExperienceEntry c s ts imp cs) = Some (ExperienceEntry c s ts imp cs)"

fun json_entries :: "runtime \<Rightarrow> entry list \<Rightarrow> entry list option" where
  "json_entries rt [] = Some []"
| "json_entries rt (e # es) =
     (case json_entry rt e of
        None \<Rightarrow> None
      | Some e' \<Rightarrow> (case json_entries rt es of None \<Rightarrow> None | Some es' \<Rightarrow> Some (e' # es')))"

text \<open>The lists of indices of an index can be written when every index can.\<close>

definition index_ok :: "('k, nat list) dict \<Rightarrow> bool" where
  "index_ok idx = list_all (\<lambda>(k, ids). list_all (\<lambda>i. int_digits_ok (int i)) ids) idx"

definition json_snapshot :: "runtime \<Rightarrow> snapshot \<Rightarrow> snapshot option" where
  "json_snapshot rt s =
     (case (case doc_storage s of
              None \<Rightarrow> Some None
            | Some es \<Rightarrow> map_option Some (json_entries rt es)) of
        None \<Rightarrow> None
      | Some st \<Rightarrow>
          if (case doc_associations s of None \<Rightarrow> True | Some a \<Rightarrow> index_ok a)
             \<and> (case doc_temporal_index s of None \<Rightarrow> True | Some t \<Rightarrow> index_ok t)
          then Some (s\<lparr>doc_storage := st\<rparr>)
          else None)"

text \<open>
  \<^verbatim>\<open>_save_to_file\<close>. When the file cannot be opened it is left as it was. Otherwise
  \<^verbatim>\<open>open(path, 'w')\<close> empties it and \<^verbatim>\<open>json.dump\<close> writes the document piece by piece;
  when \<^verbatim>\<open>json.dump\<close> raises, the pieces written so far stay in the file, which is then
  no JSON document. Every exception is caught and printed.
\<close>

definition save_to_file :: "runtime \<Rightarrow> memory \<Rightarrow> disk \<Rightarrow> disk" where
  "save_to_file rt m d =
     (case file_path m of
        None \<Rightarrow> d
      | Some p \<Rightarrow>
          if unwritable d p then d
          else
            (case json_snapshot rt (export_full_system m) of
               Some doc \<Rightarrow> d\<lparr>files := (files d)(p := Some (Document doc))\<rparr>
             | None \<Rightarrow> d\<lparr>files := (files d)(p := Some Garbled)\<rparr>))"

text \<open>
  \<^verbatim>\<open>_load_from_file\<close>. Every exception is caught by its \<^verbatim>\<open>except Exception\<close> and
  printed, so the result is always \<open>Inr\<close>.
\<close>

definition load_from_file :: "memory \<Rightarrow> disk \<Rightarrow> py_error + memory" where
  "load_from_file m d =
     (case file_path m of
        None \<Rightarrow> Inr m
      | Some p \<Rightarrow>
          (case files d p of
             None \<Rightarrow> Inr m
           | Some Garbled \<Rightarrow> Inr m
           | Some (Document s) \<Rightarrow>
               (let m1 = (case doc_storage s of Some x \<Rightarrow> m\<lparr>storage := x\<rparr> | None \<Rightarrow> m);
                    m2 = (case doc_associations s of Some x \<Rightarrow> m1\<lparr>associations := x\<rparr> | None \<Rightarrow> m1);
                    m3 = (case doc_temporal_index s of Some x \<Rightarrow> m2\<lparr>temporal_index := x\<rparr> | None \<Rightarrow> m2)
                in Inr m3)))"

text \<open>\<^verbatim>\<open>__init__\<close>: empty, then loaded when a file is named and exists.\<close>

definition init :: "string option \<Rightarrow> disk \<Rightarrow> memory" where
  "init mf d =
     (let m = \<lparr>storage = [], associations = [], temporal_index = [], memory_file = mf\<rparr>
      in case file_path m of
           None \<Rightarrow> m
         | Some p \<Rightarrow>
             (case files d p of
                None \<Rightarrow> m
              | Some f \<Rightarrow> (case load_from_file m d of Inr m' \<Rightarrow> m' | Inl e \<Rightarrow> m)))"

subsection \<open>Storing\<close>

text \<open>\<^verbatim>\<open>_add_association\<close>.\<close>

definition add_association :: "string \<Rightarrow> nat \<Rightarrow> (string, nat list) dict \<Rightarrow> (string, nat list) dict" where
  "add_association concept memory_index assoc =
     (let concept_lower = lower concept;
          assoc1 = (if dict_get assoc concept_lower = None
                    then dict_set concept_lower [] assoc else assoc)
      in case dict_get assoc1 concept_lower of
           None \<Rightarrow> assoc1
         | Some l \<Rightarrow>
             if memory_index \<notin> set l
             then dict_set concept_lower (l @ [memory_index]) assoc1 else assoc1)"

text \<open>\<^verbatim>\<open>for concept in concepts: self._add_association(concept, memory_index)\<close>.\<close>

fun add_associations :: "string list \<Rightarrow> nat \<Rightarrow> (string, nat list) dict \<Rightarrow> (string, nat list) dict" where
  "add_associations [] memory_index assoc = assoc"
| "add_associations (c # cs) memory_index assoc =
     add_associations cs memory_index (add_association c memory_index assoc)"

text \<open>
  The four lines that index an entry by its day:
  \<^verbatim>\<open>if time_key not in self.temporal_index: self.temporal_index[time_key] = []\<close> and
  \<^verbatim>\<open>self.temporal_index[time_key].append(memory_index)\<close>.
\<close>

definition index_time :: "int \<Rightarrow> nat \<Rightarrow> (int, nat list) dict \<Rightarrow> (int, nat list) dict" where
  "index_time time_key memory_index ti =
     (let ti1 = (if dict_get ti time_key = None then dict_set time_key [] ti else ti)
      in case dict_get ti1 time_key of
           None \<Rightarrow> ti1
         | Some l \<Rightarrow> dict_set time_key (l @ [memory_index]) ti1)"

text \<open>\<^verbatim>\<open>_index_concepts\<close>.\<close>

definition index_concepts :: "runtime \<Rightarrow> nat \<Rightarrow> string \<Rightarrow> pyval \<Rightarrow> (string, nat list) dict \<Rightarrow> (string, nat list) dict" where
  "index_concepts rt memory_index query result assoc =
     (let query_concepts = key_concepts rt query;
          result_concepts =
            (case result of
               PStr s \<Rightarrow> key_concepts rt s
             | PDict kvs \<Rightarrow>
                 (case dict_get kvs (PStr ''response'') of
                    Some (PStr s) \<Rightarrow> key_concepts rt s
                  | _ \<Rightarrow> [])
             | _ \<Rightarrow> []);
          all_concepts = str_set_iter rt (query_concepts @ result_concepts)
      in add_associations all_concepts memory_index assoc)"

definition store_query ::
  "runtime \<Rightarrow> datetime \<Rightarrow> string \<Rightarrow> pyval \<Rightarrow> (pyval \<times> pyval) list option \<Rightarrow>
   memory \<Rightarrow> disk \<Rightarrow> nat \<times> memory \<times> disk" where
  "store_query rt now query result metadata m d =
     (let e = QueryEntry query result now
                (case metadata of None \<Rightarrow> None | Some md \<Rightarrow> if md = [] then None else Some md);
          memory_index = length (storage m);
          m1 = m\<lparr>storage := storage m @ [e]\<rparr>;
          m2 = m1\<lparr>temporal_index := index_time (ordinal now) memory_index (temporal_index m1)\<rparr>;
          m3 = m2\<lparr>associations := index_concepts rt memory_index query result (associations m2)\<rparr>
      in (memory_index, m3, save_to_file rt m3 d))"

definition store_experience ::
  "runtime \<Rightarrow> datetime \<Rightarrow> string \<Rightarrow> string \<Rightarrow> string list option \<Rightarrow> real \<Rightarrow>
   memory \<Rightarrow> disk \<Rightarrow> nat \<times> memory \<times> disk" where
  "store_experience rt now content source concepts importance m d =
     (let given = (case concepts of None \<Rightarrow> None | Some cs \<Rightarrow> if cs = [] then None else Some cs);
          e = ExperienceEntry content source now importance given;
          memory_index = length (storage m);
          m1 = m\<lparr>storage := storage m @ [e]\<rparr>;
          m2 = m1\<lparr>temporal_index := index_time (ordinal now) memory_index (temporal_index m1)\<rparr>;
          m3 = m2\<lparr>associations :=
                  (case given of
                     Some cs \<Rightarrow> add_associations cs memory_index (associations m2)
                   | None \<Rightarrow> add_associations (key_concepts rt content) memory_index (associations m2))\<rparr>
      in (memory_index, m3, save_to_file rt m3 d))"

text \<open>\<^verbatim>\<open>clear_memory\<close>: a failure to remove the file is caught and printed.\<close>

definition clear_memory :: "memory \<Rightarrow> disk \<Rightarrow> string \<times> memory \<times> disk" where
  "clear_memory m d =
     (let m' = m\<lparr>storage := [], associations := [], temporal_index := []\<rparr>;
          d' = (case file_path m of
                  None \<Rightarrow> d
                | Some p \<Rightarrow>
                    if files d p \<noteq> None \<and> \<not> unwritable d p
                    then d\<lparr>files := (files d)(p := None)\<rparr> else d)
      in (''[Memory system cleared]'', m', d'))"

subsection \<open>Searching\<close>

text \<open>\<^verbatim>\<open>limit and len(...) >= limit\<close>: a limit of \<^verbatim>\<open>None\<close> or \<^verbatim>\<open>0\<close> is falsy.\<close>

definition limit_reached :: "int option \<Rightarrow> nat \<Rightarrow> bool" where
  "limit_reached limit n = (case limit of None \<Rightarrow> False | Some l \<Rightarrow> l \<noteq> 0 \<and> l \<le> int n)"

text \<open>
  The body of the direct scan for one entry: the three \<^verbatim>\<open>if\<close> blocks in their order,
  each later one guarded by \<^verbatim>\<open>not entry_matched\<close>.
\<close>

definition entry_matched :: "string \<Rightarrow> bool \<Rightarrow> entry \<Rightarrow> bool" where
  "entry_matched keyword case_sensitive e =
     (let needle = (if case_sensitive then keyword else lower keyword);
          matched1 =
            (case get_query e of
               Some q \<Rightarrow> contains needle (if case_sensitive then q else lower q)
             | None \<Rightarrow> False);
          matched2 =
            (if \<not> matched1 then
               (case get_result e of
                  Some (PStr r) \<Rightarrow> contains needle (if case_sensitive then r else lower r)
                | _ \<Rightarrow> False)
             else matched1);
          matched3 =
            (if \<not> matched2 then
               (case get_content e of
                  Some c \<Rightarrow> contains needle (if case_sensitive then c else lower c)
                | None \<Rightarrow> False)
             else matched2)
      in matched3)"

text \<open>
  \<^verbatim>\<open>for i, entry in enumerate(self.storage)\<close>: the entries still to visit, the index of
  the first of them, and \<^verbatim>\<open>direct_matches\<close> so far (a dictionary, in insertion order).
\<close>

fun direct_scan ::
  "string \<Rightarrow> bool \<Rightarrow> int option \<Rightarrow> nat \<Rightarrow> entry list \<Rightarrow> (nat, entry) dict \<Rightarrow> (nat, entry) dict" where
  "direct_scan keyword case_sensitive limit i [] direct_matches = direct_matches"
| "direct_scan keyword case_sensitive limit i (e # es) direct_matches =
     (let direct_matches' =
            (if entry_matched keyword case_sensitive e
             then dict_set i e direct_matches else direct_matches)
      in if limit_reached limit (length direct_matches') then direct_matches'
         else direct_scan keyword case_sensitive limit (Suc i) es direct_matches')"

text \<open>
  \<^verbatim>\<open>for memory_index in indices\<close> with its body: an index not yet in \<^verbatim>\<open>matches\<close> is
  added with \<^verbatim>\<open>self.storage[memory_index]\<close> (which raises when out of range), and the
  loop breaks when the limit is reached.
\<close>

fun add_memories ::
  "entry list \<Rightarrow> int option \<Rightarrow> nat list \<Rightarrow> (nat, entry) dict \<Rightarrow> py_error + (nat, entry) dict" where
  "add_memories st limit [] matches = Inr matches"
| "add_memories st limit (memory_index # rest) matches =
     (if dict_get matches memory_index = None then
        (if memory_index < length st then
           (let matches' = dict_set memory_index (st ! memory_index) matches
            in if limit_reached limit (length matches') then Inr matches'
               else add_memories st limit rest matches')
         else Inl IndexError)
      else add_memories st limit rest matches)"

text \<open>\<^verbatim>\<open>for concept, indices in self.associations.items()\<close> with its body.\<close>

fun partial_matches ::
  "entry list \<Rightarrow> int option \<Rightarrow> string \<Rightarrow> (string, nat list) dict \<Rightarrow> (nat, entry) dict \<Rightarrow>
   py_error + (nat, entry) dict" where
  "partial_matches st limit needle [] matches = Inr matches"
| "partial_matches st limit needle ((concept, indices) # rest) matches =
     (if contains needle concept \<and> concept \<noteq> needle then
        (case add_memories st limit indices matches of
           Inl err \<Rightarrow> Inl err
         | Inr matches' \<Rightarrow>
             if limit_reached limit (length matches') then Inr matches'
             else partial_matches st limit needle rest matches')
      else partial_matches st limit needle rest matches)"

text \<open>\<^verbatim>\<open>len(matches) < (limit or float('inf'))\<close>.\<close>

definition below_limit :: "int option \<Rightarrow> nat \<Rightarrow> bool" where
  "below_limit limit n = (case limit of None \<Rightarrow> True | Some l \<Rightarrow> l = 0 \<or> int n < l)"

definition search ::
  "memory \<Rightarrow> string \<Rightarrow> bool \<Rightarrow> int option \<Rightarrow> bool \<Rightarrow> py_error + (nat, entry) dict" where
  "search m keyword case_sensitive limit include_associations =
     (let direct_matches = direct_scan keyword case_sensitive limit 0 (storage m) []
      in if \<not> include_associations \<or> limit_reached limit (length direct_matches)
         then Inr direct_matches
         else
           (let needle = lower keyword;
                exact =
                  (case dict_get (associations m) needle of
                     Some indices \<Rightarrow> add_memories (storage m) limit indices direct_matches
                   | None \<Rightarrow> Inr direct_matches)
            in case exact of
                 Inl err \<Rightarrow> Inl err
               | Inr matches \<Rightarrow>
                   if below_limit limit (length matches)
                   then partial_matches (storage m) limit needle (associations m) matches
                   else Inr matches))"

subsection \<open>The derived queries\<close>

text \<open>\<^verbatim>\<open>[self.storage[idx] for idx in indices]\<close>.\<close>

fun materialize :: "entry list \<Rightarrow> nat list \<Rightarrow> py_error + entry list" where
  "materialize st [] = Inr []"
| "materialize st (idx # rest) =
     (if idx < length st then
        (case materialize st rest of Inl err \<Rightarrow> Inl err | Inr es \<Rightarrow> Inr (st ! idx # es))
      else Inl IndexError)"

text \<open>
  \<^verbatim>\<open>if limit: xs = xs[:limit]\<close>. A negative bound of a Python slice counts from the
  end of the list.
\<close>

definition truncate :: "int option \<Rightarrow> 'a list \<Rightarrow> 'a list" where
  "truncate limit xs =
     (case limit of
        None \<Rightarrow> xs
      | Some l \<Rightarrow>
          if l = 0 then xs
          else if 0 < l then take (nat l) xs
          else take (length xs - nat (- l)) xs)"

text \<open>
  Dates. \<^verbatim>\<open>timedelta(days=n)\<close> raises OverflowError beyond 999999999 days, and the sum of
  a date and a timedelta raises it outside \<^verbatim>\<open>date.min\<close> (ordinal 1) to \<^verbatim>\<open>date.max\<close>
  (ordinal 3652059).
\<close>

definition timedelta :: "int \<Rightarrow> py_error + int" where
  "timedelta days = (if \<bar>days\<bar> \<le> 999999999 then Inr days else Inl OverflowError)"

definition date_add :: "int \<Rightarrow> int \<Rightarrow> py_error + int" where
  "date_add date days =
     (if 1 \<le> date + days \<and> date + days \<le> 3652059 then Inr (date + days) else Inl OverflowError)"

text \<open>
  \<^verbatim>\<open>while current_date <= end_date\<close>: the bucket of the current day, when there is one,
  is appended to \<^verbatim>\<open>window_memories\<close>, then the day is advanced by
  \<^verbatim>\<open>timedelta(days=1)\<close>.
\<close>

function window_loop ::
  "(int, nat list) dict \<Rightarrow> int \<Rightarrow> int \<Rightarrow> nat list \<Rightarrow> py_error + nat list" where
  "window_loop ti current_date end_date window_memories =
     (if current_date \<le> end_date then
        (let window_memories' =
               (case dict_get ti current_date of
                  Some ids \<Rightarrow> window_memories @ ids
                | None \<Rightarrow> window_memories)
         in case date_add current_date 1 of
              Inl err \<Rightarrow> Inl err
            | Inr next_date \<Rightarrow> window_loop ti next_date end_date window_memories')
      else Inr window_memories)"
  by pat_completeness auto
termination
  by (relation "measure (\<lambda>(ti, current_date, end_date, acc). nat (end_date + 1 - current_date))")
     (auto simp: date_add_def split: if_splits)

declare window_loop.simps [simp del]

text \<open>
  The argument \<^verbatim>\<open>timestamp_or_date\<close> after the parsing block: a string that neither
  \<^verbatim>\<open>fromisoformat\<close> nor \<^verbatim>\<open>strptime\<close> accepts, or the day the value denotes.
\<close>

datatype anchor = Unparseable | OnDay int

definition get_temporal_context ::
  "memory \<Rightarrow> anchor \<Rightarrow> int \<Rightarrow> int option \<Rightarrow> py_error + entry list" where
  "get_temporal_context m timestamp_or_date window_days limit =
     (case timestamp_or_date of
        Unparseable \<Rightarrow> Inr []
      | OnDay target_date \<Rightarrow>
          (case timedelta window_days of
             Inl err \<Rightarrow> Inl err
           | Inr delta \<Rightarrow>
               (case date_add target_date (- delta) of
                  Inl err \<Rightarrow> Inl err
                | Inr start_date \<Rightarrow>
                    (case date_add target_date delta of
                       Inl err \<Rightarrow> Inl err
                     | Inr end_date \<Rightarrow>
                         (case window_loop (temporal_index m) start_date end_date [] of
                            Inl err \<Rightarrow> Inl err
                          | Inr window_memories \<Rightarrow>
                              materialize (storage m) (truncate limit window_memories))))))"

definition get_associated_memories :: "memory \<Rightarrow> string \<Rightarrow> int option \<Rightarrow> py_error + entry list" where
  "get_associated_memories m concept limit =
     (case dict_get (associations m) (lower concept) of
        None \<Rightarrow> Inr []
      | Some indices \<Rightarrow> materialize (storage m) (truncate limit indices))"

text \<open>
  \<^verbatim>\<open>find_connections\<close>: the comprehension runs over the set
  \<^verbatim>\<open>indices1.intersection(indices2)\<close> in the order the runtime iterates it.
\<close>

definition find_connections :: "runtime \<Rightarrow> memory \<Rightarrow> string \<Rightarrow> string \<Rightarrow> py_error + entry list" where
  "find_connections rt m concept1 concept2 =
     (case dict_get (associations m) (lower concept1) of
        None \<Rightarrow> Inr []
      | Some l1 \<Rightarrow>
          (case dict_get (associations m) (lower concept2) of
             None \<Rightarrow> Inr []
           | Some l2 \<Rightarrow> materialize (storage m) (int_set_iter rt (set l1 \<inter> set l2))))"

subsection \<open>The public interface\<close>

text \<open>
  A call of a public method with its arguments; a storing call also carries the value
  \<^verbatim>\<open>datetime.now()\<close> gave it.
\<close>

datatype op =
  StoreQuery datetime string pyval "(pyval \<times> pyval) list option"
| StoreExperience datetime string string "string list option" real
| ClearMemory
| Search string bool "int option" bool
| GetTemporalContext anchor int "int option"
| GetAssociatedMemories string "int option"
| FindConnections string string

datatype response =
  Index nat
| Message string
| Matches "py_error + (nat, entry) dict"
| Memories "py_error + entry list"

fun step :: "runtime \<Rightarrow> op \<Rightarrow> memory \<times> disk \<Rightarrow> response \<times> memory \<times> disk" where
  "step rt (StoreQuery now query result metadata) (m, d) =
     (case store_query rt now query result metadata m d of (i, m', d') \<Rightarrow> (Index i, m', d'))"
| "step rt (StoreExperience now content source concepts importance) (m, d) =
     (case store_experience rt now content source concepts importance m d of
        (i, m', d') \<Rightarrow> (Index i, m', d'))"
| "step rt ClearMemory (m, d) =
     (case clear_memory m d of (msg, m', d') \<Rightarrow> (Message msg, m', d'))"
| "step rt (Search keyword case_sensitive limit include_associations) (m, d) =
     (Matches (search m keyword case_sensitive limit include_associations), m, d)"
| "step rt (GetTemporalContext timestamp_or_date window_days limit) (m, d) =
     (Memories (get_temporal_context m timestamp_or_date window_days limit), m, d)"
| "step rt (GetAssociatedMemories concept limit) (m, d) =
     (Memories (get_associated_memories m concept limit), m, d)"
| "step rt (FindConnections concept1 concept2) (m, d) =
     (Memories (find_connections rt m concept1 concept2), m, d)"

text \<open>A sequence of calls: the responses in order, and the state after the last call.\<close>

fun run :: "runtime \<Rightarrow> op list \<Rightarrow> memory \<times> disk \<Rightarrow> response list \<times> memory \<times> disk" where
  "run rt [] s = ([], s)"
| "run rt (c # cs) s =
     (case step rt c s of
        (r, s') \<Rightarrow> (case run rt cs s' of (rs, s'') \<Rightarrow> (r # rs, s'')))"

fun is_store :: "op \<Rightarrow> bool" where
  "is_store (StoreQuery now query result metadata) = True"
| "is_store (StoreExperience now content source concepts importance) = True"
| "is_store c = False"

subsection \<open>A concrete run\<close>

text \<open>
  A runtime, a disk and a day to evaluate the methods on: the extractor finds nothing,
  sets of strings are iterated in first-occurrence order and sets of integers in
  ascending order, payloads may be nested 100 deep; the disk is empty and every path can
  be written.
\<close>

definition plain_runtime :: runtime where
  "plain_runtime =
     \<lparr>key_concepts = (\<lambda>t. []), str_set_iter = remdups, int_set_iter = sorted_list_of_set,
      json_depth = 100\<rparr>"

definition empty_disk :: disk where
  "empty_disk = \<lparr>files = (\<lambda>p. None), unwritable = (\<lambda>p. False)\<rparr>"

definition noon :: "int \<Rightarrow> datetime" where
  "noon day = \<lparr>ordinal = day, micros = 43200000000\<rparr>"

text \<open>The two calls of the gravity scenario, made on the day given.\<close>

definition gravity_calls :: "int \<Rightarrow> op list" where
  "gravity_calls day =
     [StoreQuery (noon day) ''What is gravity?'' (PStr ''Gravity is G=...'') None,
      StoreExperience (noon day) ''Newton described gravity'' ''book'' (Some [''gravity'']) (1 / 2)]"

text \<open>The object \<^verbatim>\<open>__init__\<close> builds before it looks for a file.\<close>

definition fresh :: "string option \<Rightarrow> memory" where
  "fresh mf = \<lparr>storage = [], associations = [], temporal_index = [], memory_file = mf\<rparr>"

text \<open>The memory after the two calls of the gravity scenario on a new object.\<close>

definition gravity_memory :: "int \<Rightarrow> memory" where
  "gravity_memory day = fst (snd (run plain_runtime (gravity_calls day) (fresh None, empty_disk)))"

text \<open>
  A disk whose only file, \<^verbatim>\<open>mem.json\<close>, is a document with a \<^verbatim>\<open>storage\<close> section (an
  empty list) and no other section; and the memory of the gravity scenario with that file
  as its persistence file.
\<close>

definition storage_only_disk :: disk where
  "storage_only_disk =
     \<lparr>files = (\<lambda>p. if p = ''mem.json''
                   then Some (Document \<lparr>doc_storage = Some [], doc_associations = None,
                                        doc_temporal_index = None\<rparr>)
                   else None),
      unwritable = (\<lambda>p. False)\<rparr>"

definition gravity_memory_on_file :: "int \<Rightarrow> memory" where
  "gravity_memory_on_file day = (gravity_memory day)\<lparr>memory_file := Some ''mem.json''\<rparr>"

text \<open>A disk whose only file, \<^verbatim>\<open>mem.json\<close>, is not a JSON document.\<close>

definition garbled_disk :: disk where
  "garbled_disk =
     \<lparr>files = (\<lambda>p. if p = ''mem.json'' then Some Garbled else None),
      unwritable = (\<lambda>p. False)\<rparr>"

subsection \<open>Invariants of the three structures\<close>

text \<open>The buckets of the temporal index that hold the index \<open>i\<close>.\<close>

definition buckets_of :: "(int, nat list) dict \<Rightarrow> nat \<Rightarrow> (int \<times> nat list) list" where
  "buckets_of ti i = filter (\<lambda>(day, ids). i \<in> set ids) ti"

text \<open>No index is twice in the list of a concept.\<close>

definition concept_lists_distinct :: "memory \<Rightarrow> bool" where
  "concept_lists_distinct m = list_all (\<lambda>(concept, ids). distinct ids) (associations m)"

text \<open>
  The days of the temporal index are different keys, and every index of a stored entry is
  in the bucket of exactly one of them.
\<close>

definition one_bucket_each :: "memory \<Rightarrow> bool" where
  "one_bucket_each m =
     (distinct (map fst (temporal_index m))
      \<and> list_all (\<lambda>i. length (buckets_of (temporal_index m) i) = 1) [0 ..< length (storage m)])"

text \<open>
  What storing maintains beyond that: the lists of both indices are strictly ascending and
  hold indices of stored entries only.
\<close>

definition ids_valid :: "nat \<Rightarrow> ('k, nat list) dict \<Rightarrow> bool" where
  "ids_valid n d = list_all (\<lambda>(k, ids). sorted_wrt (<) ids \<and> list_all (\<lambda>i. i < n) ids) d"

definition well_formed :: "memory \<Rightarrow> bool" where
  "well_formed m =
     (ids_valid (length (storage m)) (associations m)
      \<and> ids_valid (length (storage m)) (temporal_index m)
      \<and> one_bucket_each m)"

subsection \<open>Connections\<close>

text \<open>The indices associated with a concept: its list in the index, empty when it has none.\<close>

definition concept_ids :: "memory \<Rightarrow> string \<Rightarrow> nat list" where
  "concept_ids m concept =
     (case dict_get (associations m) (lower concept) of Some ids \<Rightarrow> ids | None \<Rightarrow> [])"

text \<open>What Python promises of iterating a set: every element, once.\<close>

definition set_iter_ok :: "runtime \<Rightarrow> bool" where
  "set_iter_ok rt =
     (\<forall>S. finite S \<longrightarrow> set (int_set_iter rt S) = S \<and> distinct (int_set_iter rt S))"

text \<open>
  A runtime that iterates a set of integers as a hash table of eight slots does, an integer
  hashing to itself: by the remainder modulo 8. It is the order of CPython for a small set
  of small integers (\<^verbatim>\<open>list({1, 8})\<close> is \<^verbatim>\<open>[8, 1]\<close>).
\<close>

definition slot_runtime :: runtime where
  "slot_runtime =
     plain_runtime\<lparr>int_set_iter := (\<lambda>S. sort_key (\<lambda>i. i mod 8) (sorted_list_of_set S))\<rparr>"

text \<open>Nine experiences; the second and the ninth are about both gravity and Newton.\<close>

definition jot :: "string \<Rightarrow> string list \<Rightarrow> op" where
  "jot content concepts = StoreExperience (noon 738000) content ''book'' (Some concepts) (1 / 2)"

definition notes_calls :: "op list" where
  "notes_calls =
     [jot ''n0'' [''other''], jot ''n1'' [''gravity'', ''newton''], jot ''n2'' [''other''],
      jot ''n3'' [''other''], jot ''n4'' [''other''], jot ''n5'' [''other''],
      jot ''n6'' [''other''], jot ''n7'' [''other''], jot ''n8'' [''gravity'', ''newton'']]"

definition notes_memory :: memory where
  "notes_memory = fst (snd (run plain_runtime notes_calls (fresh None, empty_disk)))"

subsection \<open>The window of days\<close>

text \<open>The indices stored on a day: its bucket, empty when the day has none.\<close>

definition bucket :: "(int, nat list) dict \<Rightarrow> int \<Rightarrow> nat list" where
  "bucket ti day = (case dict_get ti day of Some ids \<Rightarrow> ids | None \<Rightarrow> [])"

text \<open>The buckets of the days from the first to the last, one after the other.\<close>

definition window_ids :: "(int, nat list) dict \<Rightarrow> int \<Rightarrow> int \<Rightarrow> nat list" where
  "window_ids ti first_day last_day = concat (map (bucket ti) [first_day .. last_day])"

subsection \<open>The order of discovery, as the specification words it\<close>

text \<open>
  The textual fields of an entry in the priority of the direct scan: the query text, the
  result when it is a string, the content.
\<close>

datatype field = QueryText | ResultText | Content

fun field_text :: "entry \<Rightarrow> field \<Rightarrow> string option" where
  "field_text e QueryText = get_query e"
| "field_text e ResultText = (case get_result e of Some (PStr r) \<Rightarrow> Some r | _ \<Rightarrow> None)"
| "field_text e Content = get_content e"

text \<open>The field holds the keyword: substring containment, both sides lower-cased unless the case counts.\<close>

definition field_hit :: "string \<Rightarrow> bool \<Rightarrow> entry \<Rightarrow> field \<Rightarrow> bool" where
  "field_hit keyword case_sensitive e f =
     (case field_text e f of
        None \<Rightarrow> False
      | Some t \<Rightarrow>
          if case_sensitive then contains keyword t else contains (lower keyword) (lower t))"

text \<open>The first field that matches, the fields taken in their priority; later fields are not looked at.\<close>

definition first_matching_field :: "string \<Rightarrow> bool \<Rightarrow> entry \<Rightarrow> field option" where
  "first_matching_field keyword case_sensitive e =
     find (field_hit keyword case_sensitive e) [QueryText, ResultText, Content]"

text \<open>The direct matches: the indices of the entries with a matching field, in ascending order.\<close>

definition direct_ids :: "string \<Rightarrow> bool \<Rightarrow> entry list \<Rightarrow> nat list" where
  "direct_ids keyword case_sensitive st =
     filter (\<lambda>i. first_matching_field keyword case_sensitive (st ! i) \<noteq> None) [0 ..< length st]"

text \<open>
  The partial concept matches: the lists of the concepts that contain the lower-cased
  keyword and are not equal to it, in the order of the index.
\<close>

definition partial_ids :: "memory \<Rightarrow> string \<Rightarrow> nat list" where
  "partial_ids m keyword =
     concat (map snd (filter (\<lambda>(concept, ids). contains (lower keyword) concept
                                 \<and> concept \<noteq> lower keyword)
                       (associations m)))"

text \<open>Appending the indices that are not yet present, one after the other.\<close>

fun add_new :: "nat list \<Rightarrow> nat list \<Rightarrow> nat list" where
  "add_new seen [] = seen"
| "add_new seen (i # rest) = add_new (if i \<in> set seen then seen else seen @ [i]) rest"

text \<open>
  The discovery order: the direct matches, then the indices of the concept equal to the
  keyword, then those of the partial concept matches, each index where it is first met.
\<close>

definition discovery :: "memory \<Rightarrow> string \<Rightarrow> bool \<Rightarrow> bool \<Rightarrow> nat list" where
  "discovery m keyword case_sensitive include_associations =
     add_new (direct_ids keyword case_sensitive (storage m))
       (if include_associations then concept_ids m keyword @ partial_ids m keyword else [])"

text \<open>
  What the tests on \<^verbatim>\<open>limit\<close> amount to for a limit that is not negative: the first
  \<^verbatim>\<open>limit\<close> elements, and all of them when the limit is \<^verbatim>\<open>None\<close> or 0.
\<close>

definition cut_to :: "int option \<Rightarrow> 'a list \<Rightarrow> 'a list" where
  "cut_to limit xs =
     (case limit of None \<Rightarrow> xs | Some l \<Rightarrow> if l = 0 then xs else take (nat l) xs)"

subsection \<open>Payloads that a snapshot keeps\<close>






section \<open>Properties\<close>

subsection \<open>Returned indices\<close>

lemma store_query_index: "fst (store_query rt now q r md m d) = length (storage m)"
  by (simp add: store_query_def Let_def)

lemma store_query_storage:
  "storage (fst (snd (store_query rt now q r md m d))) =
     storage m @
       [QueryEntry q r now (case md of None \<Rightarrow> None | Some x \<Rightarrow> if x = [] then None else Some x)]"
  by (simp add: store_query_def Let_def)

lemma store_experience_index:
  "fst (store_experience rt now c s cs imp m d) = length (storage m)"
  by (simp add: store_experience_def Let_def)

lemma store_experience_storage:
  "storage (fst (snd (store_experience rt now c s cs imp m d))) =
     storage m @
       [ExperienceEntry c s now imp
          (case cs of None \<Rightarrow> None | Some x \<Rightarrow> if x = [] then None else Some x)]"
  by (simp add: store_experience_def Let_def)

lemma step_store_fst:
  "is_store c \<Longrightarrow> fst (step rt c (m, d)) = Index (length (storage m))"
proof (cases c)
  case (StoreQuery now q r md)
  then show ?thesis
    using store_query_index[of rt now q r md m d] by (auto split: prod.splits)
next
  case (StoreExperience now c' s cs imp)
  then show ?thesis
    using store_experience_index[of rt now c' s cs imp m d] by (auto split: prod.splits)
qed simp_all

lemma step_store_length:
  "is_store c \<Longrightarrow> length (storage (fst (snd (step rt c (m, d))))) = Suc (length (storage m))"
proof (cases c)
  case (StoreQuery now q r md)
  then show ?thesis
    using store_query_storage[of rt now q r md m d] by (auto split: prod.splits)
next
  case (StoreExperience now c' s cs imp)
  then show ?thesis
    using store_experience_storage[of rt now c' s cs imp m d] by (auto split: prod.splits)
qed simp_all

lemma run_store_indices:
  "list_all is_store ops \<Longrightarrow>
   fst (run rt ops (m, d)) =
     map Index [length (storage m) ..< length (storage m) + length ops]"
proof (induction ops arbitrary: m d)
  case Nil
  then show ?case by simp
next
  case (Cons c cs)
  obtain r m' d' where st: "step rt c (m, d) = (r, m', d')"
    by (cases "step rt c (m, d)") auto
  from Cons.prems have c: "is_store c" and cs: "list_all is_store cs" by simp_all
  from step_store_fst[OF c, of rt m d] step_store_length[OF c, of rt m d] st
  have r: "r = Index (length (storage m))"
    and len: "length (storage m') = Suc (length (storage m))"
    by simp_all
  have IH: "fst (run rt cs (m', d')) =
      map Index [Suc (length (storage m)) ..< Suc (length (storage m)) + length cs]"
    using Cons.IH[OF cs, of m' d'] by (simp only: len)
  have run_eq: "fst (run rt (c # cs) (m, d)) = r # fst (run rt cs (m', d'))"
    by (simp add: st split: prod.splits)
  have upt: "[length (storage m) ..< length (storage m) + length (c # cs)] =
      length (storage m) # [Suc (length (storage m)) ..< Suc (length (storage m)) + length cs]"
    by (subst upt_conv_Cons) simp_all
  show ?case
    unfolding run_eq upt IH r by simp
qed

lemma storage_init_None: "storage (init None d) = []"
  by (simp add: init_def file_path_def)

lemma storage_clear_memory: "storage (fst (snd (clear_memory m d))) = []"
  by (simp add: clear_memory_def Let_def)

text \<open>
  Claim C1. In a sequence of \<^verbatim>\<open>store_query\<close> and \<^verbatim>\<open>store_experience\<close> calls, every
  call returns the length the storage had just before it; from a new object, and from an
  object that was just cleared, the returned indices are 0, 1, 2, ... in the order of
  the calls.
\<close>

theorem store_returns_insertion_position:
  assumes "list_all is_store ops"
  shows "fst (run rt ops (m, d)) =
           map Index [length (storage m) ..< length (storage m) + length ops]
         \<and> fst (run rt ops (init None d, d)) = map Index [0 ..< length ops]
         \<and> fst (run rt ops (snd (step rt ClearMemory (m, d)))) = map Index [0 ..< length ops]"
proof -
  have a: "fst (run rt ops (m, d)) =
      map Index [length (storage m) ..< length (storage m) + length ops]"
    by (rule run_store_indices[OF assms])
  have b: "fst (run rt ops (init None d, d)) = map Index [0 ..< length ops]"
    using run_store_indices[OF assms, of rt "init None d" d] by (simp add: storage_init_None)
  obtain m' d' where cl: "snd (step rt ClearMemory (m, d)) = (m', d')"
    by (cases "snd (step rt ClearMemory (m, d))") auto
  then have "storage m' = []"
    using storage_clear_memory[of m d] by (auto split: prod.splits)
  then have "fst (run rt ops (m', d')) = map Index [0 ..< length ops]"
    using run_store_indices[OF assms, of rt m' d'] by simp
  then have c: "fst (run rt ops (snd (step rt ClearMemory (m, d)))) = map Index [0 ..< length ops]"
    by (simp only: cl)
  from a b c show ?thesis by simp
qed

lemma gravity_calls_are_stores: "list_all is_store (gravity_calls day)"
  by (simp add: gravity_calls_def)

theorem store_returns_insertion_position_witness:
  "list_all is_store (gravity_calls 738000)
   \<and> fst (run plain_runtime (gravity_calls 738000) (init None empty_disk, empty_disk)) =
       [Index 0, Index 1]"
proof -
  have "fst (run plain_runtime (gravity_calls 738000) (init None empty_disk, empty_disk)) =
      map Index [0 ..< length (gravity_calls 738000)]"
    using store_returns_insertion_position[of "gravity_calls 738000" plain_runtime
        "init None empty_disk" empty_disk] gravity_calls_are_stores[of 738000]
    by blast
  moreover have "length (gravity_calls 738000) = 2"
    by (simp add: gravity_calls_def)
  moreover have "[0 ..< 2] = [0, Suc 0]"
    by (simp add: upt_rec)
  ultimately show ?thesis
    by (simp add: gravity_calls_are_stores)
qed

subsection \<open>The gravity scenario, evaluated\<close>

lemma gravity_memory_eq:
  "gravity_memory day =
     \<lparr>storage =
        [QueryEntry ''What is gravity?'' (PStr ''Gravity is G=...'') (noon day) None,
         ExperienceEntry ''Newton described gravity'' ''book'' (noon day) (1 / 2)
           (Some [''gravity''])],
      associations = [(''gravity'', [1])],
      temporal_index = [(day, [0, 1])],
      memory_file = None\<rparr>"
  by (simp add: gravity_memory_def gravity_calls_def plain_runtime_def fresh_def empty_disk_def
      store_query_def store_experience_def index_time_def index_concepts_def
      add_association_def lower_def lower_char_def noon_def save_to_file_def file_path_def
      Let_def)

lemma lower_gravity: "lower ''gravity'' = ''gravity''"
  by (simp add: lower_def lower_char_def)

lemma lower_newton: "lower ''newton'' = ''newton''"
  by (simp add: lower_def lower_char_def)

subsection \<open>Reading leaves the state alone\<close>

text \<open>
  Claim C10. A call of \<^verbatim>\<open>search\<close>, \<^verbatim>\<open>get_temporal_context\<close>,
  \<^verbatim>\<open>get_associated_memories\<close> or \<^verbatim>\<open>find_connections\<close> leaves the storage, the
  associations and the temporal index (and the disk) as they were, whatever its
  arguments are and whether it returns or raises.
\<close>

theorem reads_leave_state:
  "snd (step rt (Search keyword case_sensitive limit include_associations) (m, d)) = (m, d)
   \<and> snd (step rt (GetTemporalContext timestamp_or_date window_days limit') (m, d)) = (m, d)
   \<and> snd (step rt (GetAssociatedMemories concept limit'') (m, d)) = (m, d)
   \<and> snd (step rt (FindConnections concept1 concept2) (m, d)) = (m, d)"
  by simp

subsection \<open>The limit of a search\<close>

lemma length_dict_set:
  "length (dict_set k v d) = (if dict_get d k = None then Suc (length d) else length d)"
  by (induction d) (auto split: if_splits)

text \<open>
  Claim C7 says that a negative limit makes \<^verbatim>\<open>search\<close> fail with an InvalidArgument
  error. The method checks no argument. A negative limit is truthy and no length is
  below it, so the scan breaks at the end of its first round and the direct matches are
  returned at once: the mapping holds the first stored entry when it matches, and nothing
  else.
\<close>

theorem search_negative_limit:
  assumes "l < 0"
  shows "search m keyword case_sensitive (Some l) include_associations =
           Inr (case storage m of
                  [] \<Rightarrow> []
                | e # es \<Rightarrow> if entry_matched keyword case_sensitive e then [(0, e)] else [])"
  using assms
  by (cases "storage m") (auto simp: search_def limit_reached_def Let_def)

theorem search_negative_limit_witness:
  "(- 1 :: int) < 0 \<and> search (gravity_memory 738000) ''newton'' False (Some (- 1)) True = Inr []"
  using search_negative_limit[of "- 1" "gravity_memory 738000" "''newton''" False True]
  by (simp add: gravity_memory_eq entry_matched_def lower_newton lower_def lower_char_def)

theorem search_negative_limit_returns:
  "search (gravity_memory 738000) ''gravity'' False (Some (- 1)) True =
     Inr [(0, QueryEntry ''What is gravity?'' (PStr ''Gravity is G=...'') (noon 738000) None)]"
  by (simp add: gravity_memory_eq search_def lower_gravity entry_matched_def limit_reached_def
      lower_def lower_char_def Let_def)

text \<open>
  Claim C8 says that the mapping \<^verbatim>\<open>search\<close> returns has at most \<^verbatim>\<open>limit\<close> entries
  for every limit from 0 on. The tests \<^verbatim>\<open>limit and len(...) >= limit\<close> take a limit of 0
  for no limit: on the memory of the gravity scenario, a search for ``gravity'' with
  limit 0 returns both entries.
\<close>

theorem search_limit_zero_returns_all:
  "search (gravity_memory 738000) ''gravity'' False (Some 0) True =
     Inr [(0, QueryEntry ''What is gravity?'' (PStr ''Gravity is G=...'') (noon 738000) None),
          (1, ExperienceEntry ''Newton described gravity'' ''book'' (noon 738000) (1 / 2)
                (Some [''gravity'']))]"
  by (simp add: gravity_memory_eq search_def lower_gravity entry_matched_def limit_reached_def
      below_limit_def lower_def lower_char_def Let_def)

theorem search_limit_zero_size:
  "(case search (gravity_memory 738000) ''gravity'' False (Some 0) True of
      Inl err \<Rightarrow> 0
    | Inr r \<Rightarrow> length r) = 2"
  using search_limit_zero_returns_all by simp

text \<open>For a limit above 0 the bound holds: each loop adds one entry at a time and stops at the limit.\<close>

lemma direct_scan_bound:
  "0 < l \<Longrightarrow> length dm < nat l \<Longrightarrow>
   length (direct_scan kw cs (Some l) i es dm) \<le> nat l"
proof (induction es arbitrary: i dm)
  case Nil
  then show ?case by simp
next
  case (Cons e es)
  let ?dm' = "if entry_matched kw cs e then dict_set i e dm else dm"
  have len: "length ?dm' \<le> nat l"
    using Cons.prems by (simp add: length_dict_set)
  show ?case
  proof (cases "limit_reached (Some l) (length ?dm')")
    case True
    then show ?thesis using len by (simp add: Let_def)
  next
    case False
    then have "length ?dm' < nat l"
      using Cons.prems(1) by (simp add: limit_reached_def)
    from Cons.IH[OF Cons.prems(1) this, of "Suc i"] False show ?thesis
      by (simp add: Let_def)
  qed
qed

lemma add_memories_bound:
  "0 < l \<Longrightarrow> length matches < nat l \<Longrightarrow>
   add_memories st (Some l) ids matches = Inr r \<Longrightarrow> length r \<le> nat l"
proof (induction ids arbitrary: matches)
  case Nil
  then show ?case by simp
next
  case (Cons i ids)
  show ?case
  proof (cases "dict_get matches i = None")
    case False
    with Cons show ?thesis by simp
  next
    case True
    note absent = this
    show ?thesis
    proof (cases "i < length st")
      case False
      with absent Cons.prems show ?thesis by simp
    next
      case True
      let ?m' = "dict_set i (st ! i) matches"
      have len: "length ?m' \<le> nat l"
        using Cons.prems(2) by (simp add: length_dict_set)
      show ?thesis
      proof (cases "limit_reached (Some l) (length ?m')")
        case True
        with absent \<open>i < length st\<close> Cons.prems(3) len show ?thesis
          by (simp add: Let_def)
      next
        case False
        then have lt: "length ?m' < nat l"
          using Cons.prems(1) by (simp add: limit_reached_def)
        from False absent \<open>i < length st\<close> Cons.prems(3)
        have "add_memories st (Some l) ids ?m' = Inr r"
          by (simp add: Let_def)
        from Cons.IH[OF Cons.prems(1) lt this] show ?thesis .
      qed
    qed
  qed
qed

lemma partial_matches_bound:
  "0 < l \<Longrightarrow> length matches < nat l \<Longrightarrow>
   partial_matches st (Some l) needle assoc matches = Inr r \<Longrightarrow> length r \<le> nat l"
proof (induction assoc arbitrary: matches)
  case Nil
  then show ?case by simp
next
  case (Cons p assoc)
  obtain concept indices where p: "p = (concept, indices)" by (cases p)
  show ?case
  proof (cases "contains needle concept \<and> concept \<noteq> needle")
    case False
    with Cons p show ?thesis by auto
  next
    case True
    show ?thesis
    proof (cases "add_memories st (Some l) indices matches")
      case (Inl err)
      with True Cons.prems p show ?thesis by simp
    next
      case (Inr matches')
      have len: "length matches' \<le> nat l"
        by (rule add_memories_bound[OF Cons.prems(1,2) Inr])
      show ?thesis
      proof (cases "limit_reached (Some l) (length matches')")
        case True
        with \<open>contains needle concept \<and> concept \<noteq> needle\<close> Inr Cons.prems(3) p len
        show ?thesis by simp
      next
        case False
        then have lt: "length matches' < nat l"
          using Cons.prems(1) by (simp add: limit_reached_def)
        from False \<open>contains needle concept \<and> concept \<noteq> needle\<close> Inr Cons.prems(3) p
        have "partial_matches st (Some l) needle assoc matches' = Inr r" by simp
        from Cons.IH[OF Cons.prems(1) lt this] show ?thesis .
      qed
    qed
  qed
qed

theorem search_positive_limit_bound:
  assumes "0 < l" and "search m keyword case_sensitive (Some l) include_associations = Inr r"
  shows "length r \<le> nat l"
proof -
  let ?dm = "direct_scan keyword case_sensitive (Some l) 0 (storage m) []"
  have dm: "length ?dm \<le> nat l"
    using direct_scan_bound[OF assms(1), of "[]"] assms(1) by simp
  show ?thesis
  proof (cases "\<not> include_associations \<or> limit_reached (Some l) (length ?dm)")
    case True
    with assms(2) dm show ?thesis by (auto simp: search_def Let_def)
  next
    case False
    then have lt: "length ?dm < nat l"
      using assms(1) by (auto simp: limit_reached_def)
    define exact where "exact =
      (case dict_get (associations m) (lower keyword) of
         Some indices \<Rightarrow> add_memories (storage m) (Some l) indices ?dm
       | None \<Rightarrow> Inr ?dm)"
    from False assms(2) have s: "(case exact of Inl err \<Rightarrow> Inl err
        | Inr matches \<Rightarrow> if below_limit (Some l) (length matches)
            then partial_matches (storage m) (Some l) (lower keyword) (associations m) matches
            else Inr matches) = Inr r"
      by (simp add: search_def Let_def exact_def)
    then obtain matches where ex: "exact = Inr matches"
      by (cases exact) auto
    have len: "length matches \<le> nat l"
      using ex lt add_memories_bound[OF assms(1) lt]
      by (auto simp: exact_def split: option.splits)
    show ?thesis
    proof (cases "below_limit (Some l) (length matches)")
      case True
      then have "length matches < nat l" using assms(1) by (simp add: below_limit_def)
      moreover from s ex True have
        "partial_matches (storage m) (Some l) (lower keyword) (associations m) matches = Inr r"
        by simp
      ultimately show ?thesis using partial_matches_bound[OF assms(1)] by blast
    next
      case False
      with s ex len show ?thesis by simp
    qed
  qed
qed

theorem search_positive_limit_bound_witness:
  "(0 :: int) < 1
   \<and> search (gravity_memory 738000) ''gravity'' False (Some 1) True =
       Inr [(0, QueryEntry ''What is gravity?'' (PStr ''Gravity is G=...'') (noon 738000) None)]
   \<and> length [(0 :: nat, QueryEntry ''What is gravity?'' (PStr ''Gravity is G=...'')
               (noon 738000) None)] \<le> nat 1"
proof -
  have s: "search (gravity_memory 738000) ''gravity'' False (Some 1) True =
      Inr [(0, QueryEntry ''What is gravity?'' (PStr ''Gravity is G=...'') (noon 738000) None)]"
    by (simp add: gravity_memory_eq search_def lower_gravity entry_matched_def
        limit_reached_def lower_def lower_char_def Let_def)
  from search_positive_limit_bound[OF _ s] show ?thesis
    using s by simp
qed

subsection \<open>Snapshot and restore\<close>


lemma load_from_file_cases:
  "load_from_file m d =
     Inr (case file_path m of
            None \<Rightarrow> m
          | Some p \<Rightarrow>
              (case files d p of
                 Some (Document s) \<Rightarrow>
                   m\<lparr>storage := (case doc_storage s of Some x \<Rightarrow> x | None \<Rightarrow> storage m),
                      associations :=
                        (case doc_associations s of Some x \<Rightarrow> x | None \<Rightarrow> associations m),
                      temporal_index :=
                        (case doc_temporal_index s of Some x \<Rightarrow> x | None \<Rightarrow> temporal_index m)\<rparr>
               | _ \<Rightarrow> m))"
  by (simp add: load_from_file_def Let_def split: option.splits disk_file.splits)

lemma gravity_on_file_path: "file_path (gravity_memory_on_file day) = Some ''mem.json''"
  by (simp add: gravity_memory_on_file_def file_path_def)


text \<open>
  Claim C4 says that restoring from a malformed document fails with a CorruptState error
  and changes nothing. \<^verbatim>\<open>_load_from_file\<close> never fails: its \<^verbatim>\<open>except Exception\<close>
  catches and prints whatever is raised. A file that cannot be parsed leaves the state as
  it was; a document replaces each of the three components whose section it has and
  leaves the others, so a document that lacks a section is applied in part.
\<close>

theorem load_applies_present_sections:
  assumes "file_path m = Some p"
  shows "(\<exists>m'. load_from_file m d = Inr m')
         \<and> (files d p = None \<or> files d p = Some Garbled \<longrightarrow> load_from_file m d = Inr m)
         \<and> (\<forall>s. files d p = Some (Document s) \<longrightarrow>
               load_from_file m d =
                 Inr (m\<lparr>storage := (case doc_storage s of Some x \<Rightarrow> x | None \<Rightarrow> storage m),
                        associations :=
                          (case doc_associations s of Some x \<Rightarrow> x | None \<Rightarrow> associations m),
                        temporal_index :=
                          (case doc_temporal_index s of Some x \<Rightarrow> x
                           | None \<Rightarrow> temporal_index m)\<rparr>))"
  using assms by (auto simp: load_from_file_cases)

theorem load_applies_present_sections_witness:
  "file_path (gravity_memory_on_file 738000) = Some ''mem.json''
   \<and> files garbled_disk ''mem.json'' = Some Garbled
   \<and> load_from_file (gravity_memory_on_file 738000) garbled_disk =
       Inr (gravity_memory_on_file 738000)"
proof -
  have g: "files garbled_disk ''mem.json'' = Some Garbled"
    by (simp add: garbled_disk_def)
  from load_applies_present_sections[OF gravity_on_file_path, of 738000 garbled_disk] g
  have "load_from_file (gravity_memory_on_file 738000) garbled_disk =
      Inr (gravity_memory_on_file 738000)"
    by blast
  with g gravity_on_file_path[of 738000] show ?thesis by simp
qed

theorem load_partial_document:
  "load_from_file (gravity_memory_on_file 738000) storage_only_disk =
     Inr \<lparr>storage = [],
          associations = [(''gravity'', [1])],
          temporal_index = [(738000, [0, 1])],
          memory_file = Some ''mem.json''\<rparr>"
  by (simp add: load_from_file_cases file_path_def storage_only_disk_def
      gravity_memory_on_file_def gravity_memory_eq)

subsection \<open>What storing maintains\<close>

lemma dict_set_absent: "dict_get d k = None \<Longrightarrow> dict_set k v d = d @ [(k, v)]"
  by (induction d) (auto split: if_splits)

lemma dict_get_dict_set: "dict_get (dict_set k v d) k = Some v"
  by (induction d) auto

lemma dict_get_None_iff: "dict_get d k = None \<longleftrightarrow> k \<notin> fst ` set d"
  by (induction d) (auto split: if_splits)

lemma dict_get_Some_mem: "dict_get d k = Some v \<Longrightarrow> (k, v) \<in> set d"
  by (induction d) (auto split: if_splits)

lemma list_all_dict_set:
  "list_all P d \<Longrightarrow> P (k, v) \<Longrightarrow> list_all P (dict_set k v d)"
  by (induction d) auto

lemma list_all_dict_get:
  "list_all P d \<Longrightarrow> dict_get d k = Some v \<Longrightarrow> P (k, v)"
  by (induction d) (auto split: if_splits)

lemma keys_dict_set:
  "map fst (dict_set k v d) = (if dict_get d k = None then map fst d @ [k] else map fst d)"
  by (induction d) (auto split: if_splits)

lemma filter_dict_set:
  "dict_get d k = Some l \<Longrightarrow>
   length (filter P (dict_set k v d)) + (if P (k, l) then 1 else 0) =
   length (filter P d) + (if P (k, v) then 1 else 0)"
  by (induction d) (auto split: if_splits)

lemma dict_set_twice: "dict_set k v (dict_set k w d) = dict_set k v d"
  by (induction d) auto

lemma index_time_cases:
  "index_time k i ti =
     (case dict_get ti k of None \<Rightarrow> ti @ [(k, [i])] | Some l \<Rightarrow> dict_set k (l @ [i]) ti)"
proof (cases "dict_get ti k")
  case None
  then show ?thesis
    by (simp add: index_time_def Let_def dict_get_dict_set dict_set_twice)
       (simp add: dict_set_absent)
next
  case (Some l)
  then show ?thesis by (simp add: index_time_def Let_def)
qed

lemma add_association_cases:
  "add_association c i assoc =
     (case dict_get assoc (lower c) of
        None \<Rightarrow> assoc @ [(lower c, [i])]
      | Some l \<Rightarrow> if i \<in> set l then assoc else dict_set (lower c) (l @ [i]) assoc)"
proof (cases "dict_get assoc (lower c)")
  case None
  then show ?thesis
    by (simp add: add_association_def Let_def dict_get_dict_set dict_set_twice)
       (simp add: dict_set_absent)
next
  case (Some l)
  then show ?thesis by (simp add: add_association_def Let_def)
qed

lemma sorted_wrt_snoc_less:
  "sorted_wrt (<) l \<Longrightarrow> list_all (\<lambda>j. j < n) l \<Longrightarrow> sorted_wrt (<) (l @ [n :: nat])"
  by (auto simp: sorted_wrt_append list_all_iff)

lemma ids_valid_mono: "ids_valid n d \<Longrightarrow> n \<le> n' \<Longrightarrow> ids_valid n' d"
  by (induction d) (auto simp: ids_valid_def list_all_iff)

text \<open>While the entry n is being indexed: lists ascending, indices at most n.\<close>

lemma add_association_valid:
  assumes "ids_valid (Suc n) assoc"
  shows "ids_valid (Suc n) (add_association c n assoc)"
proof (cases "dict_get assoc (lower c)")
  case None
  with assms show ?thesis
    by (simp add: add_association_cases ids_valid_def)
next
  case (Some l)
  from list_all_dict_get[OF assms[unfolded ids_valid_def] Some]
  have l: "sorted_wrt (<) l" "list_all (\<lambda>i. i < Suc n) l" by simp_all
  show ?thesis
  proof (cases "n \<in> set l")
    case True
    with Some assms show ?thesis by (simp add: add_association_cases)
  next
    case False
    with l(2) have "list_all (\<lambda>i. i < n) l"
      by (auto simp: list_all_iff less_Suc_eq)
    with l have "sorted_wrt (<) (l @ [n])" "list_all (\<lambda>i. i < Suc n) (l @ [n])"
      by (simp_all add: sorted_wrt_snoc_less)
    then have "ids_valid (Suc n) (dict_set (lower c) (l @ [n]) assoc)"
      using assms unfolding ids_valid_def by (intro list_all_dict_set) simp_all
    with Some False show ?thesis by (simp add: add_association_cases)
  qed
qed

lemma add_associations_valid:
  "ids_valid (Suc n) assoc \<Longrightarrow> ids_valid (Suc n) (add_associations cs n assoc)"
  by (induction cs arbitrary: assoc) (auto intro: add_association_valid)

lemma index_time_valid:
  assumes "ids_valid n ti"
  shows "ids_valid (Suc n) (index_time k n ti)"
proof (cases "dict_get ti k")
  case None
  with ids_valid_mono[OF assms, of "Suc n"] show ?thesis
    by (simp add: index_time_cases ids_valid_def)
next
  case (Some l)
  from list_all_dict_get[OF assms[unfolded ids_valid_def] Some]
  have l: "sorted_wrt (<) l" "list_all (\<lambda>i. i < n) l" by simp_all
  then have "sorted_wrt (<) (l @ [n])" "list_all (\<lambda>i. i < Suc n) (l @ [n])"
    by (auto simp: sorted_wrt_snoc_less list_all_iff)
  then have "ids_valid (Suc n) (dict_set k (l @ [n]) ti)"
    using ids_valid_mono[OF assms, of "Suc n"] unfolding ids_valid_def
    by (intro list_all_dict_set) simp_all
  with Some show ?thesis by (simp add: index_time_cases)
qed

lemma index_time_keys:
  "distinct (map fst ti) \<Longrightarrow> distinct (map fst (index_time k n ti))"
  by (auto simp: index_time_cases keys_dict_set dict_get_None_iff split: option.splits)

lemma buckets_of_none:
  "ids_valid n ti \<Longrightarrow> buckets_of ti n = []"
  by (induction ti) (auto simp: ids_valid_def buckets_of_def list_all_iff)

lemma index_time_buckets_new:
  assumes "ids_valid n ti"
  shows "length (buckets_of (index_time k n ti) n) = 1"
proof (cases "dict_get ti k")
  case None
  with buckets_of_none[OF assms] show ?thesis
    by (simp add: index_time_cases buckets_of_def)
next
  case (Some l)
  from list_all_dict_get[OF assms[unfolded ids_valid_def] Some]
  have "n \<notin> set l" by (auto simp: list_all_iff)
  with filter_dict_set[OF Some, of "\<lambda>(day, ids). n \<in> set ids" "l @ [n]"]
    buckets_of_none[OF assms] Some
  show ?thesis by (simp add: index_time_cases buckets_of_def)
qed

lemma index_time_buckets_old:
  assumes "i \<noteq> n"
  shows "length (buckets_of (index_time k n ti) i) = length (buckets_of ti i)"
proof (cases "dict_get ti k")
  case None
  with assms show ?thesis
    by (simp add: index_time_cases buckets_of_def)
next
  case (Some l)
  with filter_dict_set[OF Some, of "\<lambda>(day, ids). i \<in> set ids" "l @ [n]"] assms
  show ?thesis by (simp add: index_time_cases buckets_of_def)
qed


lemma sorted_less_distinct: "sorted_wrt (<) (l :: nat list) \<Longrightarrow> distinct l"
  by (induction l) auto

lemma ids_valid_distinct:
  "ids_valid n d \<Longrightarrow> list_all (\<lambda>(k, ids). distinct ids) d"
  by (induction d) (auto simp: ids_valid_def sorted_less_distinct)

lemma stored_well_formed:
  assumes wf: "well_formed m"
    and st: "storage m' = storage m @ [e]"
    and ti: "temporal_index m' = index_time k (length (storage m)) (temporal_index m)"
    and assoc: "associations m' = add_associations cs (length (storage m)) (associations m)"
  shows "well_formed m'"
proof -
  let ?n = "length (storage m)"
  from wf have a: "ids_valid ?n (associations m)" and t: "ids_valid ?n (temporal_index m)"
    and keys: "distinct (map fst (temporal_index m))"
    and one: "list_all (\<lambda>i. length (buckets_of (temporal_index m) i) = 1) [0 ..< ?n]"
    by (simp_all add: well_formed_def one_bucket_each_def)
  have len: "length (storage m') = Suc ?n" by (simp add: st)
  have a': "ids_valid (Suc ?n) (associations m')"
    unfolding assoc by (rule add_associations_valid) (rule ids_valid_mono[OF a], simp)
  have t': "ids_valid (Suc ?n) (temporal_index m')"
    unfolding ti by (rule index_time_valid[OF t])
  have keys': "distinct (map fst (temporal_index m'))"
    unfolding ti by (rule index_time_keys[OF keys])
  have old: "length (buckets_of (temporal_index m') i) = 1" if "i < ?n" for i
  proof -
    from that one have "length (buckets_of (temporal_index m) i) = 1"
      by (simp add: list_all_iff)
    moreover from that have "i \<noteq> ?n" by simp
    ultimately show ?thesis
      unfolding ti by (simp add: index_time_buckets_old)
  qed
  have new: "length (buckets_of (temporal_index m') ?n) = 1"
    unfolding ti by (rule index_time_buckets_new[OF t])
  have "list_all (\<lambda>i. length (buckets_of (temporal_index m') i) = 1) [0 ..< Suc ?n]"
    using old new by (auto simp: list_all_iff less_Suc_eq)
  with a' t' keys' show ?thesis
    by (simp add: well_formed_def one_bucket_each_def len)
qed

lemma store_query_well_formed:
  assumes "well_formed m"
  shows "well_formed (fst (snd (store_query rt now q r md m d)))"
proof -
  let ?cs = "str_set_iter rt (key_concepts rt q @
               (case r of PStr s \<Rightarrow> key_concepts rt s
                | PDict kvs \<Rightarrow> (case dict_get kvs (PStr ''response'') of
                     Some (PStr s) \<Rightarrow> key_concepts rt s | _ \<Rightarrow> [])
                | _ \<Rightarrow> []))"
  let ?m' = "fst (snd (store_query rt now q r md m d))"
  have "storage ?m' = storage m @ [QueryEntry q r now
      (case md of None \<Rightarrow> None | Some x \<Rightarrow> if x = [] then None else Some x)]"
    by (simp add: store_query_def Let_def)
  moreover have "temporal_index ?m' =
      index_time (ordinal now) (length (storage m)) (temporal_index m)"
    by (simp add: store_query_def Let_def)
  moreover have "associations ?m' = add_associations ?cs (length (storage m)) (associations m)"
    by (simp add: store_query_def index_concepts_def Let_def)
  ultimately show ?thesis
    by (rule stored_well_formed[OF assms])
qed

lemma store_experience_well_formed:
  assumes "well_formed m"
  shows "well_formed (fst (snd (store_experience rt now c s cs imp m d)))"
proof -
  let ?given = "case cs of None \<Rightarrow> None | Some x \<Rightarrow> if x = [] then None else Some x"
  let ?cs = "case ?given of Some x \<Rightarrow> x | None \<Rightarrow> key_concepts rt c"
  let ?m' = "fst (snd (store_experience rt now c s cs imp m d))"
  have "storage ?m' = storage m @ [ExperienceEntry c s now imp ?given]"
    by (simp add: store_experience_def Let_def)
  moreover have "temporal_index ?m' =
      index_time (ordinal now) (length (storage m)) (temporal_index m)"
    by (simp add: store_experience_def Let_def)
  moreover have "associations ?m' = add_associations ?cs (length (storage m)) (associations m)"
    by (cases ?given) (simp_all add: store_experience_def Let_def)
  ultimately show ?thesis
    by (rule stored_well_formed[OF assms])
qed

lemma fresh_well_formed: "well_formed (fresh mf)"
  by (simp add: well_formed_def one_bucket_each_def ids_valid_def fresh_def)

lemma clear_memory_well_formed: "well_formed (fst (snd (clear_memory m d)))"
  by (simp add: clear_memory_def well_formed_def one_bucket_each_def ids_valid_def Let_def)

lemma step_well_formed:
  "well_formed (fst (snd (step rt c (m, d))))" if "well_formed m"
proof (cases c)
  case (StoreQuery now q r md)
  then show ?thesis
    using store_query_well_formed[OF that, of rt now q r md d]
    by (cases "store_query rt now q r md m d") auto
next
  case (StoreExperience now c' s cs imp)
  then show ?thesis
    using store_experience_well_formed[OF that, of rt now c' s cs imp d]
    by (cases "store_experience rt now c' s cs imp m d") auto
next
  case ClearMemory
  then show ?thesis
    using clear_memory_well_formed[of m d] by (cases "clear_memory m d") auto
qed (simp_all add: that)

lemma run_well_formed:
  "well_formed m \<Longrightarrow> well_formed (fst (snd (run rt ops (m, d))))"
proof (induction ops arbitrary: m d)
  case Nil
  then show ?case by simp
next
  case (Cons c cs)
  obtain r m' d' where st: "step rt c (m, d) = (r, m', d')"
    by (cases "step rt c (m, d)") auto
  with step_well_formed[OF Cons.prems, of rt c d] have "well_formed m'" by simp
  from Cons.IH[OF this, of d'] show ?case
    by (cases "run rt cs (m', d')") (simp add: st)
qed

text \<open>
  Claim C9. After any sequence of calls of the public methods on a new object, no index is
  twice in the list of a concept, and every index of a stored entry is in the bucket of
  exactly one day of the temporal index.
\<close>

theorem stores_keep_ids_unique:
  "concept_lists_distinct (fst (snd (run rt ops (fresh mf, d))))
   \<and> one_bucket_each (fst (snd (run rt ops (fresh mf, d))))"
  using run_well_formed[OF fresh_well_formed, of rt ops mf d]
  by (auto simp: well_formed_def concept_lists_distinct_def intro: ids_valid_distinct)

theorem stores_keep_ids_unique_witness:
  "concept_lists_distinct (gravity_memory 738000)
   \<and> one_bucket_each (gravity_memory 738000)
   \<and> buckets_of (temporal_index (gravity_memory 738000)) 1 = [(738000, [0, 1])]"
proof -
  have "buckets_of (temporal_index (gravity_memory 738000)) 1 = [(738000, [0, 1])]"
    by (simp add: gravity_memory_eq buckets_of_def)
  with stores_keep_ids_unique[of plain_runtime "gravity_calls 738000" None empty_disk]
  show ?thesis
    by (simp add: gravity_memory_def)
qed

subsection \<open>Connections of two concepts\<close>

lemma materialize_valid:
  "list_all (\<lambda>i. i < length st) ids \<Longrightarrow> materialize st ids = Inr (map (\<lambda>i. st ! i) ids)"
  by (induction ids) auto

lemma lower_other: "lower ''other'' = ''other''"
  by (simp add: lower_def lower_char_def)

lemma notes_associations:
  "associations notes_memory =
     [(''other'', [0, 2, 3, 4, 5, 6, 7]), (''gravity'', [1, 8]), (''newton'', [1, 8])]"
  by (simp add: notes_memory_def notes_calls_def jot_def plain_runtime_def fresh_def
      empty_disk_def store_experience_def index_time_def add_association_def lower_gravity
      lower_newton lower_other noon_def save_to_file_def file_path_def Let_def)

lemma notes_storage:
  "storage notes_memory =
     map (\<lambda>c. ExperienceEntry c ''book'' (noon 738000) (1 / 2)
                (Some (if c = ''n1'' \<or> c = ''n8'' then [''gravity'', ''newton''] else [''other''])))
       [''n0'', ''n1'', ''n2'', ''n3'', ''n4'', ''n5'', ''n6'', ''n7'', ''n8'']"
  by (simp add: notes_memory_def notes_calls_def jot_def plain_runtime_def fresh_def
      empty_disk_def store_experience_def index_time_def add_association_def lower_gravity
      lower_newton lower_other noon_def save_to_file_def file_path_def Let_def)

lemma slot_order_1_8:
  "int_set_iter slot_runtime {Suc 0, 8} = [8, 1]"
  by (simp add: slot_runtime_def plain_runtime_def)

lemma plain_order_1_8:
  "int_set_iter plain_runtime {Suc 0, 8} = [1, 8]"
  by (simp add: plain_runtime_def)

lemma set_iter_ok_plain: "set_iter_ok plain_runtime"
  by (simp add: set_iter_ok_def plain_runtime_def)

lemma set_iter_ok_slot: "set_iter_ok slot_runtime"
  by (simp add: set_iter_ok_def slot_runtime_def plain_runtime_def)


lemma notes_well_formed: "well_formed notes_memory"
  unfolding notes_memory_def by (rule run_well_formed[OF fresh_well_formed])

text \<open>
  Claim C5 says that \<^verbatim>\<open>find_connections\<close> returns the entries of the common indices in
  ascending order. The method builds the Python set of the common indices and runs over
  it, so the order is the one in which the runtime iterates that set. For every runtime
  that iterates each element of a set once, and every memory whose indices are those of
  stored entries: the result holds the entries of exactly the indices that are in the
  lists of both concepts, each once; it is empty when a concept has no list.
\<close>

theorem connections_common_ids:
  assumes "set_iter_ok rt" and "well_formed m"
  shows "(\<exists>ids. find_connections rt m concept1 concept2 = Inr (map (\<lambda>i. storage m ! i) ids)
            \<and> set ids = set (concept_ids m concept1) \<inter> set (concept_ids m concept2)
            \<and> distinct ids)
         \<and> (dict_get (associations m) (lower concept1) = None
              \<or> dict_get (associations m) (lower concept2) = None
              \<longrightarrow> find_connections rt m concept1 concept2 = Inr [])"
proof -
  have absent: "find_connections rt m concept1 concept2 = Inr []"
    if "dict_get (associations m) (lower concept1) = None
        \<or> dict_get (associations m) (lower concept2) = None"
    using that by (auto simp: find_connections_def split: option.splits)
  have "\<exists>ids. find_connections rt m concept1 concept2 = Inr (map (\<lambda>i. storage m ! i) ids)
      \<and> set ids = set (concept_ids m concept1) \<inter> set (concept_ids m concept2)
      \<and> distinct ids"
  proof (cases "dict_get (associations m) (lower concept1) = None
      \<or> dict_get (associations m) (lower concept2) = None")
    case True
    have "set (concept_ids m concept1) \<inter> set (concept_ids m concept2) = {}"
      using True by (auto simp: concept_ids_def)
    with absent[OF True] show ?thesis by simp
  next
    case False
    then obtain l1 l2 where l1: "dict_get (associations m) (lower concept1) = Some l1"
      and l2: "dict_get (associations m) (lower concept2) = Some l2"
      by auto
    let ?ids = "int_set_iter rt (set l1 \<inter> set l2)"
    from assms(1) have it: "set ?ids = set l1 \<inter> set l2" "distinct ?ids"
      by (simp_all add: set_iter_ok_def)
    from assms(2) have "ids_valid (length (storage m)) (associations m)"
      by (simp add: well_formed_def)
    from list_all_dict_get[OF this[unfolded ids_valid_def] l1]
    have "list_all (\<lambda>i. i < length (storage m)) l1" by simp
    with it(1) have "list_all (\<lambda>i. i < length (storage m)) ?ids"
      by (auto simp: list_all_iff)
    from materialize_valid[OF this] l1 l2
    have "find_connections rt m concept1 concept2 = Inr (map (\<lambda>i. storage m ! i) ?ids)"
      by (simp add: find_connections_def)
    with it l1 l2 show ?thesis
      by (auto simp: concept_ids_def)
  qed
  with absent show ?thesis by blast
qed

lemma notes_connections_plain:
  "find_connections plain_runtime notes_memory ''Gravity'' ''Newton'' =
     Inr [ExperienceEntry ''n1'' ''book'' (noon 738000) (1 / 2) (Some [''gravity'', ''newton'']),
          ExperienceEntry ''n8'' ''book'' (noon 738000) (1 / 2) (Some [''gravity'', ''newton''])]"
  by (simp add: find_connections_def notes_associations notes_storage lower_def lower_char_def
      plain_order_1_8)

text \<open>
  With the order of a hash table of eight slots, the common indices 1 and 8 of ``gravity''
  and ``newton'' come out as 8, 1.
\<close>

theorem connections_slot_order:
  "set_iter_ok slot_runtime
   \<and> concept_ids notes_memory ''gravity'' = [1, 8]
   \<and> concept_ids notes_memory ''newton'' = [1, 8]
   \<and> find_connections slot_runtime notes_memory ''gravity'' ''newton'' =
       Inr [ExperienceEntry ''n8'' ''book'' (noon 738000) (1 / 2) (Some [''gravity'', ''newton'']),
            ExperienceEntry ''n1'' ''book'' (noon 738000) (1 / 2) (Some [''gravity'', ''newton''])]
   \<and> find_connections slot_runtime notes_memory ''gravity'' ''newton'' =
       Inr (map (\<lambda>i. storage notes_memory ! i) [8, 1])"
  by (simp add: set_iter_ok_slot concept_ids_def find_connections_def notes_associations
      notes_storage lower_gravity lower_newton slot_order_1_8)

theorem connections_common_ids_witness:
  "set_iter_ok plain_runtime \<and> well_formed notes_memory
   \<and> find_connections plain_runtime notes_memory ''Gravity'' ''Newton'' =
       Inr (map (\<lambda>i. storage notes_memory ! i) [1, 8])
   \<and> set [1, 8] = set (concept_ids notes_memory ''Gravity'') \<inter> set (concept_ids notes_memory ''Newton'')
   \<and> find_connections plain_runtime notes_memory ''gravity'' ''apple'' = Inr []"
proof -
  have absent: "dict_get (associations notes_memory) (lower ''apple'') = None"
    by (simp add: notes_associations lower_def lower_char_def)
  from connections_common_ids[OF set_iter_ok_plain notes_well_formed, of "''gravity''" "''apple''"]
    absent
  have "find_connections plain_runtime notes_memory ''gravity'' ''apple'' = Inr []"
    by blast
  moreover have "find_connections plain_runtime notes_memory ''Gravity'' ''Newton'' =
       Inr (map (\<lambda>i. storage notes_memory ! i) [1, 8])"
    by (simp add: notes_connections_plain notes_storage)
  moreover have "set [1, 8] =
      set (concept_ids notes_memory ''Gravity'') \<inter> set (concept_ids notes_memory ''Newton'')"
    by (simp add: concept_ids_def notes_associations lower_def lower_char_def)
  ultimately show ?thesis
    using set_iter_ok_plain notes_well_formed by simp
qed

subsection \<open>The temporal context\<close>

lemma window_loop_eq:
  "0 \<le> c \<Longrightarrow> e < 3652059 \<Longrightarrow>
   window_loop ti c e acc = Inr (acc @ window_ids ti c e)"
proof (induction ti c e acc rule: window_loop.induct)
  case (1 ti c e acc)
  show ?case
  proof (cases "c \<le> e")
    case False
    then show ?thesis by (subst window_loop.simps) (simp add: window_ids_def)
  next
    case True
    let ?acc' = "case dict_get ti c of Some ids \<Rightarrow> acc @ ids | None \<Rightarrow> acc"
    have next_day: "date_add c 1 = Inr (c + 1)"
      using True "1.prems" by (simp add: date_add_def)
    have acc': "?acc' = acc @ bucket ti c"
      by (simp add: bucket_def split: option.splits)
    have IH: "window_loop ti (c + 1) e ?acc' = Inr (?acc' @ window_ids ti (c + 1) e)"
      using "1.IH"[OF True refl next_day] "1.prems" by simp
    have upto: "[c .. e] = c # [c + 1 .. e]"
      using True by (simp add: upto_rec1)
    have "window_loop ti c e acc = window_loop ti (c + 1) e ?acc'"
      using True next_day by (subst window_loop.simps) (simp add: Let_def)
    also have "\<dots> = Inr (acc @ window_ids ti c e)"
      by (simp only: IH) (simp add: acc' window_ids_def upto)
    finally show ?thesis .
  qed
qed

lemma bucket_valid:
  "ids_valid n ti \<Longrightarrow> sorted_wrt (<) (bucket ti day) \<and> list_all (\<lambda>i. i < n) (bucket ti day)"
  using list_all_dict_get[of "\<lambda>(k, ids). sorted_wrt (<) ids \<and> list_all (\<lambda>i. i < n) ids" ti day]
  by (auto simp: bucket_def ids_valid_def split: option.splits)

lemma window_ids_valid:
  "ids_valid n ti \<Longrightarrow> list_all (\<lambda>i. i < n) (window_ids ti a b)"
  using bucket_valid[of n ti] by (auto simp: window_ids_def list_all_iff)

lemma truncate_positive:
  "limit = None \<or> (\<exists>l. limit = Some l \<and> 0 < l) \<Longrightarrow>
   truncate limit xs = (case limit of None \<Rightarrow> xs | Some l \<Rightarrow> take (nat l) xs)"
  by (auto simp: truncate_def)

lemma get_temporal_context_window:
  assumes "well_formed m" and "0 \<le> window_days" and "1 \<le> target - window_days"
    and "target + window_days < 3652059"
    and "limit = None \<or> (\<exists>l. limit = Some l \<and> 0 < l)"
  shows "get_temporal_context m (OnDay target) window_days limit =
           Inr (map (\<lambda>i. storage m ! i)
                  (case limit of
                     None \<Rightarrow> window_ids (temporal_index m) (target - window_days) (target + window_days)
                   | Some l \<Rightarrow>
                       take (nat l)
                         (window_ids (temporal_index m) (target - window_days) (target + window_days))))"
proof -
  let ?ids = "window_ids (temporal_index m) (target - window_days) (target + window_days)"
  from assms(1) have v: "ids_valid (length (storage m)) (temporal_index m)"
    by (simp add: well_formed_def)
  have td: "timedelta window_days = Inr window_days"
    using assms(2,3,4) by (simp add: timedelta_def)
  have s: "date_add target (- window_days) = Inr (target - window_days)"
    using assms(2,3,4) by (simp add: date_add_def)
  have e: "date_add target window_days = Inr (target + window_days)"
    using assms(2,3,4) by (simp add: date_add_def)
  have loop: "window_loop (temporal_index m) (target - window_days) (target + window_days) [] =
      Inr ?ids"
    using window_loop_eq[of "target - window_days" "target + window_days" "temporal_index m" "[]"]
      assms(3,4) by simp
  have "list_all (\<lambda>i. i < length (storage m)) (truncate limit ?ids)"
    using window_ids_valid[OF v, of "target - window_days" "target + window_days"]
    by (auto simp: truncate_positive[OF assms(5)] list_all_iff split: option.splits
        dest: in_set_takeD)
  from materialize_valid[OF this]
  show ?thesis
    by (simp add: get_temporal_context_def td s e loop truncate_positive[OF assms(5)])
qed


lemma gravity_run_storage:
  "storage (fst (snd (run rt (gravity_calls day) (fresh mf, d)))) =
     [QueryEntry ''What is gravity?'' (PStr ''Gravity is G=...'') (noon day) None,
      ExperienceEntry ''Newton described gravity'' ''book'' (noon day) (1 / 2)
        (Some [''gravity''])]"
  by (simp add: gravity_calls_def fresh_def store_query_def store_experience_def Let_def
      split: prod.splits)

lemma gravity_run_temporal_index:
  "temporal_index (fst (snd (run rt (gravity_calls day) (fresh mf, d)))) = [(day, [0, 1])]"
  by (simp add: gravity_calls_def fresh_def store_query_def store_experience_def
      index_time_def noon_def Let_def split: prod.splits)

lemma gravity_memory_well_formed: "well_formed (gravity_memory day)"
  unfolding gravity_memory_def by (rule run_well_formed[OF fresh_well_formed])

lemma get_temporal_context_overflow:
  assumes "target - window_days < 1 \<or> 3652059 < target + window_days"
  shows "get_temporal_context m (OnDay target) window_days limit = Inl OverflowError"
proof (cases "timedelta window_days")
  case (Inl err)
  then have "err = OverflowError"
    by (simp add: timedelta_def split: if_splits)
  with Inl show ?thesis by (simp add: get_temporal_context_def)
next
  case (Inr delta)
  then have delta: "delta = window_days"
    by (simp add: timedelta_def split: if_splits)
  show ?thesis
  proof (cases "1 \<le> target - window_days \<and> target - window_days \<le> 3652059")
    case False
    then have "date_add target (- window_days) = Inl OverflowError"
      by (auto simp: date_add_def)
    with Inr delta show ?thesis by (simp add: get_temporal_context_def)
  next
    case True
    then have s: "date_add target (- window_days) = Inr (target - window_days)"
      by (simp add: date_add_def)
    from True assms have "3652059 < target + window_days" by auto
    then have "date_add target window_days = Inl OverflowError"
      by (simp add: date_add_def)
    with Inr delta s show ?thesis by (simp add: get_temporal_context_def)
  qed
qed

text \<open>
  Claim C6 says that for every anchor date and every window of days
  \<^verbatim>\<open>get_temporal_context\<close> returns the entries stored on the days of the window, and cuts
  the list to \<^verbatim>\<open>limit\<close> whenever one is given. The dates are Python dates, and the
  method guards no date arithmetic. When the window lies within the calendar and ends
  before \<^verbatim>\<open>date.max\<close>, on a memory whose indices are valid, with no limit or a limit above
  0: the result holds the entries of the buckets of the days from
  \<open>target - window_days\<close> to \<open>target + window_days\<close>, day after day, each bucket in
  ascending order of its indices, cut to the limit. When the window begins before
  \<^verbatim>\<open>date.min\<close> or ends after \<^verbatim>\<open>date.max\<close>, the call raises OverflowError. After the two
  calls of the gravity scenario on one day, a window of 0 days around that day gives the
  entries 0 and 1.
\<close>

theorem temporal_context_window:
  "(well_formed m \<and> 0 \<le> window_days \<and> 1 \<le> target - window_days
      \<and> target + window_days < 3652059
      \<and> (limit = None \<or> (\<exists>l. limit = Some l \<and> 0 < l)) \<longrightarrow>
      get_temporal_context m (OnDay target) window_days limit =
        Inr (map (\<lambda>i. storage m ! i)
               (case limit of
                  None \<Rightarrow> window_ids (temporal_index m) (target - window_days) (target + window_days)
                | Some l \<Rightarrow>
                    take (nat l)
                      (window_ids (temporal_index m) (target - window_days) (target + window_days))))
      \<and> list_all (\<lambda>day. sorted_wrt (<) (bucket (temporal_index m) day))
            [target - window_days .. target + window_days])
   \<and> (target - window_days < 1 \<or> 3652059 < target + window_days \<longrightarrow>
         get_temporal_context m (OnDay target) window_days limit = Inl OverflowError)
   \<and> (1 \<le> day \<and> day < 3652059 \<longrightarrow>
         get_temporal_context (fst (snd (run rt (gravity_calls day) (fresh mf, d))))
           (OnDay day) 0 None =
         Inr (map (\<lambda>i. storage (fst (snd (run rt (gravity_calls day) (fresh mf, d)))) ! i)
                [0, 1]))"
proof -
  have window: "get_temporal_context m (OnDay target) window_days limit =
        Inr (map (\<lambda>i. storage m ! i)
               (case limit of
                  None \<Rightarrow> window_ids (temporal_index m) (target - window_days) (target + window_days)
                | Some l \<Rightarrow>
                    take (nat l)
                      (window_ids (temporal_index m) (target - window_days) (target + window_days))))
      \<and> list_all (\<lambda>day. sorted_wrt (<) (bucket (temporal_index m) day))
            [target - window_days .. target + window_days]"
    if wf: "well_formed m" and w: "0 \<le> window_days" and lo: "1 \<le> target - window_days"
      and hi: "target + window_days < 3652059"
      and lim: "limit = None \<or> (\<exists>l. limit = Some l \<and> 0 < l)"
  proof -
    from wf have v: "ids_valid (length (storage m)) (temporal_index m)"
      by (simp add: well_formed_def)
    have "list_all (\<lambda>day. sorted_wrt (<) (bucket (temporal_index m) day))
        [target - window_days .. target + window_days]"
      using bucket_valid[OF v] by (simp add: list_all_iff)
    with get_temporal_context_window[OF wf w lo hi lim] show ?thesis by simp
  qed
  have scenario: "get_temporal_context (fst (snd (run rt (gravity_calls day) (fresh mf, d))))
        (OnDay day) 0 None =
      Inr (map (\<lambda>i. storage (fst (snd (run rt (gravity_calls day) (fresh mf, d)))) ! i) [0, 1])"
    if "1 \<le> day" and "day < 3652059"
  proof -
    let ?g = "fst (snd (run rt (gravity_calls day) (fresh mf, d)))"
    have wf: "well_formed ?g" by (rule run_well_formed[OF fresh_well_formed])
    have "window_ids (temporal_index ?g) day day = [0, 1]"
      by (simp add: gravity_run_temporal_index window_ids_def bucket_def)
    with get_temporal_context_window[OF wf, of 0 day None] that show ?thesis by simp
  qed
  from window get_temporal_context_overflow[of target window_days m limit] scenario
  show ?thesis by blast
qed

lemma days_around: "[737999 .. 738001] = [737999, 738000, 738001 :: int]"
  by (simp add: upto_rec1)

theorem temporal_context_window_witness:
  "well_formed (gravity_memory 738000) \<and> (0 :: int) \<le> 1 \<and> (1 :: int) \<le> 738000 - 1
   \<and> (738000 :: int) + 1 < 3652059
   \<and> get_temporal_context (gravity_memory 738000) (OnDay 738000) 1 (Some 1) =
       Inr [QueryEntry ''What is gravity?'' (PStr ''Gravity is G=...'') (noon 738000) None]
   \<and> get_temporal_context (gravity_memory 738000) (OnDay 738000) 0 None =
       Inr [QueryEntry ''What is gravity?'' (PStr ''Gravity is G=...'') (noon 738000) None,
            ExperienceEntry ''Newton described gravity'' ''book'' (noon 738000) (1 / 2)
              (Some [''gravity''])]
   \<and> (3652059 :: int) < 3652059 + 1
   \<and> get_temporal_context (gravity_memory 738000) (OnDay 3652059) 1 None = Inl OverflowError"
proof -
  note thm_here = temporal_context_window[where m = "gravity_memory 738000"
      and rt = plain_runtime and mf = None and d = empty_disk and day = 738000]
  have ids: "window_ids [(738000, [0, Suc 0])] 737999 738001 = [0, 1]"
    by (simp add: window_ids_def bucket_def days_around)
  have a: "get_temporal_context (gravity_memory 738000) (OnDay 738000) 1 (Some 1) =
      Inr [QueryEntry ''What is gravity?'' (PStr ''Gravity is G=...'') (noon 738000) None]"
    using thm_here[where target = 738000 and window_days = 1 and limit = "Some 1"]
      gravity_memory_well_formed[of 738000]
    by (simp add: gravity_memory_eq ids)
  have b: "get_temporal_context (gravity_memory 738000) (OnDay 738000) 0 None =
       Inr [QueryEntry ''What is gravity?'' (PStr ''Gravity is G=...'') (noon 738000) None,
            ExperienceEntry ''Newton described gravity'' ''book'' (noon 738000) (1 / 2)
              (Some [''gravity''])]"
    using thm_here[where target = 738000 and window_days = 1 and limit = "Some 1"]
    by (simp add: gravity_run_storage gravity_memory_def)
  have c: "get_temporal_context (gravity_memory 738000) (OnDay 3652059) 1 None =
      Inl OverflowError"
    using thm_here[where target = 3652059 and window_days = 1 and limit = None]
    by simp
  from a b c gravity_memory_well_formed[of 738000] show ?thesis by simp
qed

text \<open>
  Around 0001-01-01 the default window of one day raises; and a limit of 0 cuts nothing
  (\<^verbatim>\<open>if limit:\<close> takes it for no limit).
\<close>

theorem temporal_context_edges:
  "get_temporal_context (gravity_memory 738000) (OnDay 1) 1 None = Inl OverflowError
   \<and> get_temporal_context (gravity_memory 738000) (OnDay 738000) 0 (Some 0) =
       Inr [QueryEntry ''What is gravity?'' (PStr ''Gravity is G=...'') (noon 738000) None,
            ExperienceEntry ''Newton described gravity'' ''book'' (noon 738000) (1 / 2)
              (Some [''gravity''])]"
proof -
  have "window_loop [(738000, [0, 1])] 738000 738000 [] = Inr [0, 1]"
    using window_loop_eq[of 738000 738000 "[(738000, [0, 1])]" "[]"]
    by (simp add: window_ids_def bucket_def)
  then show ?thesis
    by (simp add: get_temporal_context_def gravity_memory_eq timedelta_def date_add_def
        truncate_def)
qed

subsection \<open>The order of a search\<close>

lemma entry_matched_first_field:
  "entry_matched keyword case_sensitive e \<longleftrightarrow>
   first_matching_field keyword case_sensitive e \<noteq> None"
  by (cases e)
     (auto simp: entry_matched_def first_matching_field_def field_hit_def Let_def
       split: option.splits pyval.splits)

lemma zip_upt_nth: "zip [i ..< i + length es] es = map (\<lambda>j. (i + j, es ! j)) [0 ..< length es]"
proof (induction es arbitrary: i)
  case Nil
  then show ?case by simp
next
  case (Cons e es)
  have "[i ..< i + length (e # es)] = i # [Suc i ..< Suc i + length es]"
    by (subst upt_conv_Cons) simp_all
  moreover have "[0 ..< length (e # es)] = 0 # map Suc [0 ..< length es]"
    by (simp add: upt_conv_Cons map_Suc_upt del: upt_Suc)
  ultimately show ?case
    using Cons.IH[of "Suc i"] by (simp add: comp_def)
qed


lemma add_new_prefix: "\<exists>zs. add_new seen xs = seen @ zs"
proof (induction xs arbitrary: seen)
  case Nil
  then show ?case by simp
next
  case (Cons x xs)
  obtain zs where "add_new (if x \<in> set seen then seen else seen @ [x]) xs =
      (if x \<in> set seen then seen else seen @ [x]) @ zs"
    using Cons.IH by blast
  then show ?case by (cases "x \<in> set seen") auto
qed

lemma add_new_append: "add_new seen (xs @ ys) = add_new (add_new seen xs) ys"
  by (induction xs arbitrary: seen) auto

lemma cut_to_open:
  "\<not> limit_reached limit (length (cut_to limit xs)) \<Longrightarrow> cut_to limit xs = xs"
  by (auto simp: cut_to_def limit_reached_def split: option.splits if_splits)

lemma cut_to_open_length:
  "\<not> limit_reached limit (length xs) \<Longrightarrow> cut_to limit xs = xs"
  by (auto simp: cut_to_def limit_reached_def split: option.splits if_splits)

lemma cut_to_full:
  "limit_reached limit (length (cut_to limit xs)) \<Longrightarrow> cut_to limit (xs @ zs) = cut_to limit xs"
  by (auto simp: cut_to_def limit_reached_def split: option.splits if_splits)

lemma cut_to_full_length:
  "limit_reached limit (length xs) \<Longrightarrow> \<not> limit_reached limit (length xs - 1) \<Longrightarrow>
   cut_to limit (xs @ zs) = xs"
  by (auto simp: cut_to_def limit_reached_def split: option.splits if_splits)


lemma direct_scan_eq:
  assumes "\<forall>k \<in> fst ` set dm. k < i" and "\<not> limit_reached limit (length dm)"
  shows "direct_scan kw cs limit i es dm =
           cut_to limit (dm @ filter (\<lambda>(j, e). entry_matched kw cs e) (zip [i ..< i + length es] es))"
  using assms
proof (induction es arbitrary: i dm)
  case Nil
  then show ?case by (simp add: cut_to_open_length)
next
  case (Cons e es)
  let ?P = "\<lambda>(j, e). entry_matched kw cs e"
  let ?rest = "filter ?P (zip [Suc i ..< Suc i + length es] es)"
  have upt: "[i ..< i + length (e # es)] = i # [Suc i ..< Suc i + length es]"
    by (subst upt_conv_Cons) simp_all
  have absent: "dict_get dm i = None"
    using Cons.prems(1) by (auto simp: dict_get_None_iff)
  let ?dm' = "if entry_matched kw cs e then dict_set i e dm else dm"
  have dm': "?dm' = dm @ (if entry_matched kw cs e then [(i, e)] else [])"
    by (simp add: dict_set_absent[OF absent])
  have all: "dm @ filter ?P (zip [i ..< i + length (e # es)] (e # es)) = ?dm' @ ?rest"
    unfolding upt dm' by simp
  show ?case
  proof (cases "limit_reached limit (length ?dm')")
    case True
    with Cons.prems(2) have m: "entry_matched kw cs e" by (auto split: if_splits)
    have "\<not> limit_reached limit (length ?dm' - 1)"
      using Cons.prems(2) m by (simp add: dict_set_absent[OF absent])
    from cut_to_full_length[OF True this] have "cut_to limit (?dm' @ ?rest) = ?dm'" .
    with True show ?thesis
      unfolding all by (simp add: Let_def)
  next
    case False
    have keys: "\<forall>k \<in> fst ` set ?dm'. k < Suc i"
      using Cons.prems(1) by (auto simp: dict_set_absent[OF absent] less_Suc_eq)
    from Cons.IH[OF keys False] False show ?thesis
      unfolding all by (simp add: Let_def)
  qed
qed

lemma direct_pairs:
  "filter (\<lambda>(j, e). entry_matched kw cs e) (zip [0 ..< 0 + length st] st) =
     map (\<lambda>i. (i, st ! i)) (direct_ids kw cs st)"
  unfolding zip_upt_nth
  by (simp add: direct_ids_def filter_map comp_def entry_matched_first_field)

lemma direct_scan_ids:
  "\<not> limit_reached limit 0 \<Longrightarrow>
   direct_scan kw cs limit 0 st [] =
     cut_to limit (map (\<lambda>i. (i, st ! i)) (direct_ids kw cs st))"
  using direct_scan_eq[of "[]" 0 limit kw cs st]
  by (simp add: direct_pairs[simplified])

lemma dict_get_map_ids:
  "dict_get (map (\<lambda>i. (i, f i)) seen) k = None \<longleftrightarrow> k \<notin> set seen"
  by (simp add: dict_get_None_iff image_image)

lemma add_memories_eq:
  assumes "list_all (\<lambda>i. i < length st) ids"
    and "\<not> limit_reached limit (length seen)"
  shows "add_memories st limit ids (map (\<lambda>i. (i, st ! i)) seen) =
           Inr (cut_to limit (map (\<lambda>i. (i, st ! i)) (add_new seen ids)))"
  using assms
proof (induction ids arbitrary: seen)
  case Nil
  then show ?case by (simp add: cut_to_open_length)
next
  case (Cons i ids)
  let ?f = "\<lambda>i. (i, st ! i)"
  from Cons.prems(1) have i: "i < length st" and ids: "list_all (\<lambda>i. i < length st) ids"
    by simp_all
  show ?case
  proof (cases "i \<in> set seen")
    case True
    with Cons.IH[OF ids Cons.prems(2)] show ?thesis
      by (simp add: dict_get_map_ids)
  next
    case False
    then have absent: "dict_get (map ?f seen) i = None"
      by (simp add: dict_get_map_ids)
    have set': "dict_set i (st ! i) (map ?f seen) = map ?f (seen @ [i])"
      by (simp add: dict_set_absent[OF absent])
    obtain zs where zs: "add_new (seen @ [i]) ids = (seen @ [i]) @ zs"
      using add_new_prefix by blast
    show ?thesis
    proof (cases "limit_reached limit (length (seen @ [i]))")
      case True
      have "\<not> limit_reached limit (length (map ?f (seen @ [i])) - 1)"
        using Cons.prems(2) by simp
      with cut_to_full_length[of limit "map ?f (seen @ [i])" "map ?f zs"] True
      have "cut_to limit (map ?f (add_new (seen @ [i]) ids)) = map ?f (seen @ [i])"
        by (simp add: zs)
      with True False absent i show ?thesis
        by (simp add: set' Let_def del: map_append)
    next
      case below: False
      from Cons.IH[OF ids below] below False absent i show ?thesis
        by (simp add: set' Let_def del: map_append)
    qed
  qed
qed


lemma partial_matches_eq:
  assumes "list_all (\<lambda>(c, ids). list_all (\<lambda>i. i < length st) ids) assoc"
    and "\<not> limit_reached limit (length seen)"
  shows "partial_matches st limit needle assoc (map (\<lambda>i. (i, st ! i)) seen) =
           Inr (cut_to limit (map (\<lambda>i. (i, st ! i))
                  (add_new seen (concat (map snd
                     (filter (\<lambda>(c, ids). contains needle c \<and> c \<noteq> needle) assoc))))))"
  using assms
proof (induction assoc arbitrary: seen)
  case Nil
  then show ?case by (simp add: cut_to_open_length)
next
  case (Cons p assoc)
  let ?f = "\<lambda>i. (i, st ! i)"
  let ?cond = "\<lambda>(c, ids). contains needle c \<and> c \<noteq> needle"
  let ?R = "concat (map snd (filter ?cond assoc))"
  obtain c ids where p: "p = (c, ids)" by (cases p)
  from Cons.prems(1) p have ids: "list_all (\<lambda>i. i < length st) ids"
    and rest: "list_all (\<lambda>(c, ids). list_all (\<lambda>i. i < length st) ids) assoc"
    by simp_all
  show ?case
  proof (cases "contains needle c \<and> c \<noteq> needle")
    case False
    with Cons.IH[OF rest Cons.prems(2)] p show ?thesis by auto
  next
    case True
    let ?A = "add_new seen ids"
    have am: "add_memories st limit ids (map ?f seen) = Inr (cut_to limit (map ?f ?A))"
      by (rule add_memories_eq[OF ids Cons.prems(2)])
    obtain zs where zs: "add_new ?A ?R = ?A @ zs"
      using add_new_prefix by blast
    have all: "add_new seen (concat (map snd (filter ?cond (p # assoc)))) = add_new ?A ?R"
      using True p by (simp add: add_new_append)
    show ?thesis
    proof (cases "limit_reached limit (length (cut_to limit (map ?f ?A)))")
      case reached: True
      from cut_to_full[OF reached, of "map ?f zs"]
      have "cut_to limit (map ?f (add_new ?A ?R)) = cut_to limit (map ?f ?A)"
        by (simp add: zs)
      with reached True p am show ?thesis
        unfolding all by simp
    next
      case below: False
      from cut_to_open[OF below] have full: "cut_to limit (map ?f ?A) = map ?f ?A" .
      with below have "\<not> limit_reached limit (length ?A)" by simp
      from Cons.IH[OF rest this] below True p am full show ?thesis
        unfolding all by simp
    qed
  qed
qed

lemma below_limit_iff: "below_limit limit n \<longleftrightarrow> \<not> limit_reached limit n"
  by (auto simp: below_limit_def limit_reached_def split: option.splits)

lemma search_eq:
  assumes valid: "list_all (\<lambda>(c, ids). list_all (\<lambda>i. i < length (storage m)) ids) (associations m)"
    and nonneg: "\<not> limit_reached limit 0"
  shows "search m keyword case_sensitive limit include_associations =
           Inr (cut_to limit (map (\<lambda>i. (i, storage m ! i))
                  (discovery m keyword case_sensitive include_associations)))"
proof -
  let ?st = "storage m"
  let ?f = "\<lambda>i. (i, ?st ! i)"
  let ?D = "direct_ids keyword case_sensitive ?st"
  let ?E = "concept_ids m keyword"
  let ?P = "partial_ids m keyword"
  let ?dm = "direct_scan keyword case_sensitive limit 0 ?st []"
  have dm: "?dm = cut_to limit (map ?f ?D)"
    by (rule direct_scan_ids[OF nonneg])
  show ?thesis
  proof (cases include_associations)
    case False
    then show ?thesis by (simp add: search_def dm discovery_def Let_def)
  next
    case True
    obtain zs where zs: "add_new ?D (?E @ ?P) = ?D @ zs"
      using add_new_prefix by blast
    show ?thesis
    proof (cases "limit_reached limit (length ?dm)")
      case reached: True
      from cut_to_full[OF reached[unfolded dm], of "map ?f zs"]
      have "cut_to limit (map ?f (add_new ?D (?E @ ?P))) = cut_to limit (map ?f ?D)"
        by (simp add: zs)
      with reached True show ?thesis
        by (simp add: search_def discovery_def Let_def dm)
    next
      case below: False
      from cut_to_open[OF below[unfolded dm]] have full: "?dm = map ?f ?D"
        by (simp add: dm)
      with below have openD: "\<not> limit_reached limit (length ?D)" by simp
      let ?A = "add_new ?D ?E"
      have exact: "(case dict_get (associations m) (lower keyword) of
            Some indices \<Rightarrow> add_memories ?st limit indices ?dm
          | None \<Rightarrow> Inr ?dm) = Inr (cut_to limit (map ?f ?A))"
      proof (cases "dict_get (associations m) (lower keyword)")
        case None
        then show ?thesis
          using openD by (simp add: concept_ids_def full cut_to_open_length)
      next
        case (Some indices)
        from list_all_dict_get[OF valid Some]
        have "list_all (\<lambda>i. i < length ?st) indices" by simp
        from add_memories_eq[OF this openD] Some show ?thesis
          by (simp add: concept_ids_def full)
      qed
      obtain ys where ys: "add_new ?A ?P = ?A @ ys"
        using add_new_prefix by blast
      have all: "add_new ?D (?E @ ?P) = add_new ?A ?P"
        by (simp add: add_new_append)
      show ?thesis
      proof (cases "limit_reached limit (length (cut_to limit (map ?f ?A)))")
        case reachedA: True
        from cut_to_full[OF reachedA, of "map ?f ys"]
        have "cut_to limit (map ?f (add_new ?A ?P)) = cut_to limit (map ?f ?A)"
          by (simp add: ys)
        with reachedA below True exact show ?thesis
          by (simp add: search_def discovery_def Let_def all below_limit_iff)
      next
        case belowA: False
        from cut_to_open[OF belowA] have fullA: "cut_to limit (map ?f ?A) = map ?f ?A" .
        with belowA have "\<not> limit_reached limit (length ?A)" by simp
        from partial_matches_eq[OF valid this, of "lower keyword"]
        have "partial_matches ?st limit (lower keyword) (associations m) (map ?f ?A) =
            Inr (cut_to limit (map ?f (add_new ?A ?P)))"
          by (simp add: partial_ids_def)
        with belowA below True exact fullA show ?thesis
          by (simp add: search_def discovery_def Let_def all below_limit_iff)
      qed
    qed
  qed
qed


lemma direct_scan_none:
  "\<forall>e \<in> set es. \<not> entry_matched kw cs e \<Longrightarrow> direct_scan kw cs limit i es dm = dm"
  by (induction es arbitrary: i) (simp_all add: Let_def)

lemma direct_ids_empty:
  assumes "direct_ids kw cs st = []"
  shows "\<forall>e \<in> set st. \<not> entry_matched kw cs e"
proof
  fix e assume "e \<in> set st"
  then obtain i where "i < length st" "st ! i = e"
    by (auto simp: in_set_conv_nth)
  with assms show "\<not> entry_matched kw cs e"
    by (auto simp: direct_ids_def filter_empty_conv entry_matched_first_field)
qed

lemma partial_matches_none:
  "concat (map snd (filter (\<lambda>(c, ids). contains needle c \<and> c \<noteq> needle) assoc)) = [] \<Longrightarrow>
   partial_matches st limit needle assoc [] = Inr []"
  by (induction assoc) auto

lemma add_new_empty: "add_new seen xs = [] \<Longrightarrow> seen = [] \<and> xs = []"
proof (cases xs)
  case Nil
  then show "add_new seen xs = [] \<Longrightarrow> seen = [] \<and> xs = []" by simp
next
  case (Cons x rest)
  obtain zs where "add_new (if x \<in> set seen then seen else seen @ [x]) rest =
      (if x \<in> set seen then seen else seen @ [x]) @ zs"
    using add_new_prefix by blast
  with Cons show "add_new seen xs = [] \<Longrightarrow> seen = [] \<and> xs = []"
    by (auto split: if_splits)
qed

lemma search_nothing:
  assumes "discovery m keyword case_sensitive True = []"
  shows "search m keyword case_sensitive limit include_associations = Inr []"
proof -
  from add_new_empty[OF assms[unfolded discovery_def if_True]]
  have D: "direct_ids keyword case_sensitive (storage m) = []"
    and E: "concept_ids m keyword = []" and P: "partial_ids m keyword = []"
    by simp_all
  have dm: "direct_scan keyword case_sensitive limit 0 (storage m) [] = []"
    by (rule direct_scan_none[OF direct_ids_empty[OF D]])
  have exact: "(case dict_get (associations m) (lower keyword) of
        Some indices \<Rightarrow> add_memories (storage m) limit indices []
      | None \<Rightarrow> Inr []) = Inr []"
    using E by (auto simp: concept_ids_def split: option.splits)
  have partial: "partial_matches (storage m) limit (lower keyword) (associations m) [] = Inr []"
    by (rule partial_matches_none[OF P[unfolded partial_ids_def]])
  show ?thesis
    by (simp add: search_def dm exact partial Let_def)
qed

lemma well_formed_valid:
  "well_formed m \<Longrightarrow>
   list_all (\<lambda>(c, ids). list_all (\<lambda>i. i < length (storage m)) ids) (associations m)"
  by (auto simp: well_formed_def ids_valid_def list_all_iff)

text \<open>
  Claim C2. The three guarded tests of the direct scan mark an entry exactly when one of
  its textual fields, taken in the priority query text, string result, content, holds the
  keyword (the first such field decides; the guards skip the later ones). On a memory
  whose indices are valid, with no limit or a limit above 0, \<^verbatim>\<open>search\<close> returns the
  entries in the order of discovery: the direct matches by ascending index, then the
  indices of the concept equal to the keyword, then those of the concepts that contain
  it, each index once, where it is first met; a limit keeps the first \<^verbatim>\<open>limit\<close> of them.
  When nothing matches, the result is the empty mapping, whatever the other arguments
  are, and no exception.
\<close>

theorem search_discovery_order:
  assumes "well_formed m" and "limit = None \<or> (\<exists>l. limit = Some l \<and> 0 < l)"
  shows "(\<forall>e. entry_matched keyword case_sensitive e \<longleftrightarrow>
              first_matching_field keyword case_sensitive e \<noteq> None)
         \<and> search m keyword case_sensitive limit include_associations =
             Inr (map (\<lambda>i. (i, storage m ! i))
                    (case limit of
                       None \<Rightarrow> discovery m keyword case_sensitive include_associations
                     | Some l \<Rightarrow>
                         take (nat l) (discovery m keyword case_sensitive include_associations)))
         \<and> (discovery m keyword case_sensitive True = [] \<longrightarrow>
              (\<forall>limit' include_associations'.
                  search m keyword case_sensitive limit' include_associations' = Inr []))"
proof -
  from assms(2) have nonneg: "\<not> limit_reached limit 0"
    by (auto simp: limit_reached_def)
  from assms(2) have cut: "cut_to limit xs = (case limit of None \<Rightarrow> xs | Some l \<Rightarrow> take (nat l) xs)"
    for xs :: "(nat \<times> entry) list"
    by (auto simp: cut_to_def)
  have "search m keyword case_sensitive limit include_associations =
      Inr (map (\<lambda>i. (i, storage m ! i))
        (case limit of
           None \<Rightarrow> discovery m keyword case_sensitive include_associations
         | Some l \<Rightarrow> take (nat l) (discovery m keyword case_sensitive include_associations)))"
    using search_eq[OF well_formed_valid[OF assms(1)] nonneg, of keyword case_sensitive
        include_associations]
    by (simp add: cut take_map split: option.splits)
  then show ?thesis
    using entry_matched_first_field search_nothing by blast
qed

lemma gravity_discovery: "discovery (gravity_memory 738000) ''gravity'' False True = [0, 1]"
  by (simp add: discovery_def direct_ids_def first_matching_field_def field_hit_def
      concept_ids_def partial_ids_def gravity_memory_eq lower_gravity lower_def lower_char_def
      upt_rec)

lemma lower_apple: "lower ''apple'' = ''apple''"
  by (simp add: lower_def lower_char_def)

lemma gravity_discovery_apple: "discovery (gravity_memory 738000) ''apple'' False True = []"
  by (simp add: discovery_def direct_ids_def first_matching_field_def field_hit_def
      concept_ids_def partial_ids_def gravity_memory_eq lower_apple lower_def lower_char_def
      upt_rec)

theorem search_discovery_order_witness:
  "well_formed (gravity_memory 738000)
   \<and> search (gravity_memory 738000) ''gravity'' False None True =
       Inr [(0, QueryEntry ''What is gravity?'' (PStr ''Gravity is G=...'') (noon 738000) None),
            (1, ExperienceEntry ''Newton described gravity'' ''book'' (noon 738000) (1 / 2)
                  (Some [''gravity'']))]
   \<and> discovery (gravity_memory 738000) ''apple'' False True = []
   \<and> search (gravity_memory 738000) ''apple'' False (Some 3) False = Inr []"
proof -
  have a: "search (gravity_memory 738000) ''gravity'' False None True =
      Inr (map (\<lambda>i. (i, storage (gravity_memory 738000) ! i))
             (discovery (gravity_memory 738000) ''gravity'' False True))"
    using search_discovery_order[where m = "gravity_memory 738000" and limit = None
        and keyword = "''gravity''" and case_sensitive = False and include_associations = True]
      gravity_memory_well_formed[of 738000]
    by simp
  have b: "search (gravity_memory 738000) ''apple'' False (Some 3) False = Inr []"
    using search_discovery_order[where m = "gravity_memory 738000" and limit = None
        and keyword = "''apple''" and case_sensitive = False and include_associations = True]
      gravity_memory_well_formed[of 738000] gravity_discovery_apple
    by blast
  from a b show ?thesis
    by (simp add: gravity_discovery gravity_discovery_apple gravity_memory_well_formed)
       (simp add: gravity_memory_eq)
qed

subsection \<open>Associations within a search; clearing\<close>

lemma set_add_new: "set (add_new seen xs) = set seen \<union> set xs"
  by (induction xs arbitrary: seen) auto

lemma distinct_add_new: "distinct seen \<Longrightarrow> distinct (add_new seen xs)"
  by (induction xs arbitrary: seen) auto

text \<open>
  The entries associated with a concept are among those a search for the concept returns
  (with associations, without a limit), and the search returns no index twice.
\<close>

theorem associated_within_search:
  assumes "well_formed m"
  shows "\<exists>ids. search m concept case_sensitive None True = Inr (map (\<lambda>i. (i, storage m ! i)) ids)
           \<and> distinct ids
           \<and> get_associated_memories m concept None =
               Inr (map (\<lambda>i. storage m ! i) (concept_ids m concept))
           \<and> set (concept_ids m concept) \<subseteq> set ids"
proof -
  let ?ids = "discovery m concept case_sensitive True"
  have s: "search m concept case_sensitive None True = Inr (map (\<lambda>i. (i, storage m ! i)) ?ids)"
    using search_eq[OF well_formed_valid[OF assms], of None concept case_sensitive True]
    by (simp add: limit_reached_def cut_to_def)
  have d: "distinct ?ids"
    unfolding discovery_def direct_ids_def by (rule distinct_add_new) simp
  have sub: "set (concept_ids m concept) \<subseteq> set ?ids"
    by (auto simp: discovery_def set_add_new)
  from well_formed_valid[OF assms]
  have "list_all (\<lambda>i. i < length (storage m)) (concept_ids m concept)"
    using list_all_dict_get[of "\<lambda>(c, ids). list_all (\<lambda>i. i < length (storage m)) ids"
        "associations m" "lower concept"]
    by (auto simp: concept_ids_def split: option.splits)
  from materialize_valid[OF this]
  have a: "get_associated_memories m concept None =
      Inr (map (\<lambda>i. storage m ! i) (concept_ids m concept))"
    by (auto simp: get_associated_memories_def concept_ids_def truncate_def split: option.splits)
  from s d a sub show ?thesis by blast
qed

theorem associated_within_search_witness:
  "well_formed notes_memory
   \<and> search notes_memory ''Newton'' False None True =
       Inr (map (\<lambda>i. (i, storage notes_memory ! i)) [1, 8])
   \<and> concept_ids notes_memory ''Newton'' = [1, 8]"
proof -
  have c: "concept_ids notes_memory ''Newton'' = [1, 8]"
    by (simp add: concept_ids_def notes_associations lower_def lower_char_def)
  have "discovery notes_memory ''Newton'' False True = [1, 8]"
    by (simp add: discovery_def direct_ids_def first_matching_field_def field_hit_def
        partial_ids_def c notes_associations notes_storage lower_def lower_char_def upt_rec)
  moreover obtain ids where
    "search notes_memory ''Newton'' False None True =
       Inr (map (\<lambda>i. (i, storage notes_memory ! i)) ids)"
    using associated_within_search[OF notes_well_formed, of "''Newton''" False] by blast
  moreover have "search notes_memory ''Newton'' False None True =
      Inr (map (\<lambda>i. (i, storage notes_memory ! i)) (discovery notes_memory ''Newton'' False True))"
    using search_eq[OF well_formed_valid[OF notes_well_formed], of None "''Newton''" False True]
    by (simp add: limit_reached_def cut_to_def)
  ultimately show ?thesis
    using c notes_well_formed by simp
qed

text \<open>
  After \<^verbatim>\<open>clear_memory\<close> the three structures are empty, the queries over them return
  nothing, and the next \<^verbatim>\<open>store_query\<close> returns the index 0.
\<close>

theorem cleared_memory_is_empty:
  "storage (fst (snd (clear_memory m d))) = []
   \<and> associations (fst (snd (clear_memory m d))) = []
   \<and> temporal_index (fst (snd (clear_memory m d))) = []
   \<and> search (fst (snd (clear_memory m d))) keyword case_sensitive limit include_associations =
       Inr []
   \<and> get_associated_memories (fst (snd (clear_memory m d))) concept limit' = Inr []
   \<and> find_connections rt (fst (snd (clear_memory m d))) concept1 concept2 = Inr []
   \<and> fst (store_query rt now query result metadata (fst (snd (clear_memory m d)))
            (snd (snd (clear_memory m d)))) = 0"
  by (simp add: clear_memory_def Let_def search_def get_associated_memories_def
      find_connections_def store_query_index)

theorem cleared_memory_is_empty_witness:
  "search (fst (snd (clear_memory (gravity_memory 738000) empty_disk))) ''gravity'' False None True
     = Inr []"
  using cleared_memory_is_empty[where m = "gravity_memory 738000" and d = empty_disk
      and keyword = "''gravity''" and case_sensitive = False and limit = None
      and include_associations = True]
  by blast

subsection \<open>A snapshot through json\<close>
















end
